theory Spec2Isabelle
  imports Complex_Main
begin

section \<open>JavaScript numbers\<close>

text \<open>
  The page computes with JavaScript numbers (IEEE 754 doubles).  A finite double is
  modelled by the real number it denotes, and the three non-finite values are kept.
  Every arithmetic operation computes the exact result and rounds it to the nearest
  double, ties to the even mantissa, with overflow to an infinity.  The sign of a zero is
  not modelled: the divisors of the code are a difference and a sum of non-negative
  lengths, whose zero is the positive one.
\<close>

datatype jsnum = Finite real | PosInf | NegInf | NaN

text \<open>The exponent of the leading bit of \<open>x\<close>, not below that of the smallest normal
  double, and the unit in the last of the 53 places of the mantissa.\<close>

definition binade :: "real \<Rightarrow> int" where
  "binade x = max \<lfloor>log 2 \<bar>x\<bar>\<rfloor> (- 1022)"

definition ulp :: "real \<Rightarrow> real" where
  "ulp x = 2 powi (binade x - 52)"

definition round_half_even :: "real \<Rightarrow> int" where
  "round_half_even t =
     (let f = \<lfloor>t\<rfloor>; d = t - of_int f
      in if d < 1 / 2 then f else if 1 / 2 < d then f + 1 else if even f then f else f + 1)"

text \<open>The multiple of \<open>ulp x\<close> nearest to \<open>x\<close>; it is the double nearest to \<open>x\<close> unless that
  overflows.\<close>

definition fl :: "real \<Rightarrow> real" where
  "fl x = (if x = 0 then 0 else of_int (round_half_even (x / ulp x)) * ulp x)"

definition to_double :: "real \<Rightarrow> jsnum" where
  "to_double x =
     (if 2 ^ 1024 \<le> \<bar>fl x\<bar> then (if 0 < x then PosInf else NegInf) else Finite (fl x))"

text \<open>The operators \<open>+\<close>, \<open>-\<close> and \<open>/\<close>.\<close>

fun js_add :: "jsnum \<Rightarrow> jsnum \<Rightarrow> jsnum" where
  "js_add NaN y = NaN"
| "js_add x NaN = NaN"
| "js_add (Finite a) (Finite b) = to_double (a + b)"
| "js_add PosInf NegInf = NaN"
| "js_add NegInf PosInf = NaN"
| "js_add PosInf y = PosInf"
| "js_add x PosInf = PosInf"
| "js_add NegInf y = NegInf"
| "js_add x NegInf = NegInf"

fun js_neg :: "jsnum \<Rightarrow> jsnum" where
  "js_neg (Finite a) = Finite (- a)"
| "js_neg PosInf = NegInf"
| "js_neg NegInf = PosInf"
| "js_neg NaN = NaN"

definition js_sub :: "jsnum \<Rightarrow> jsnum \<Rightarrow> jsnum" where
  "js_sub x y = js_add x (js_neg y)"

fun js_div :: "jsnum \<Rightarrow> jsnum \<Rightarrow> jsnum" where
  "js_div NaN y = NaN"
| "js_div x NaN = NaN"
| "js_div (Finite a) (Finite b) =
     (if b \<noteq> 0 then to_double (a / b)
      else if a = 0 then NaN
      else if 0 < a then PosInf
      else NegInf)"
| "js_div (Finite a) y = Finite 0"
| "js_div PosInf (Finite b) = (if 0 \<le> b then PosInf else NegInf)"
| "js_div NegInf (Finite b) = (if 0 \<le> b then NegInf else PosInf)"
| "js_div x y = NaN"

text \<open>\<open>Math.ceil\<close>, \<open>Math.max\<close> and \<open>Math.min\<close>: \<open>NaN\<close> is contagious.\<close>

fun js_ceil :: "jsnum \<Rightarrow> jsnum" where
  "js_ceil (Finite x) = Finite (of_int \<lceil>x\<rceil>)"
| "js_ceil x = x"

fun js_max :: "jsnum \<Rightarrow> jsnum \<Rightarrow> jsnum" where
  "js_max NaN y = NaN"
| "js_max x NaN = NaN"
| "js_max PosInf y = PosInf"
| "js_max x PosInf = PosInf"
| "js_max NegInf y = y"
| "js_max x NegInf = x"
| "js_max (Finite a) (Finite b) = Finite (max a b)"

fun js_min :: "jsnum \<Rightarrow> jsnum \<Rightarrow> jsnum" where
  "js_min NaN y = NaN"
| "js_min x NaN = NaN"
| "js_min NegInf y = NegInf"
| "js_min x NegInf = NegInf"
| "js_min PosInf y = y"
| "js_min x PosInf = x"
| "js_min (Finite a) (Finite b) = Finite (min a b)"

text \<open>\<open>parseFloat(s) || d\<close>: the parsed value is \<open>None\<close> when \<open>parseFloat\<close> returns
  \<open>NaN\<close>; \<open>NaN\<close> and \<open>0\<close> are both falsy, so both select the default.\<close>

definition js_or :: "real option \<Rightarrow> real \<Rightarrow> real" where
  "js_or parsed d = (case parsed of None \<Rightarrow> d | Some v \<Rightarrow> if v = 0 then d else v)"

text \<open>The remainder operator \<open>%\<close> on integers: the sign of the dividend, and \<open>NaN\<close>
  (here \<open>None\<close>) for a zero divisor.\<close>

definition js_rem :: "int \<Rightarrow> int \<Rightarrow> int option" where
  "js_rem a b = (if b = 0 then None else Some (sgn a * (\<bar>a\<bar> mod \<bar>b\<bar>)))"

section \<open>Strings and slugs\<close>

text \<open>A JavaScript string is a sequence of UTF-16 code units, given by their numbers.\<close>

type_synonym jsstring = "nat list"

definition units :: "string \<Rightarrow> jsstring" where
  "units s = map of_char s"

text \<open>The character class \<open>[a-z0-9]\<close> and the hyphen.\<close>

definition is_slug_char :: "nat \<Rightarrow> bool" where
  "is_slug_char c = ((97 \<le> c \<and> c \<le> 122) \<or> (48 \<le> c \<and> c \<le> 57))"

definition hyphen :: nat where
  "hyphen = 45"

text \<open>\<open>.replace(/[^a-z0-9]+/g, '-')\<close>: every maximal run of characters outside the class
  becomes one hyphen.\<close>

function replace_runs :: "jsstring \<Rightarrow> jsstring" where
  "replace_runs [] = []"
| "replace_runs (c # cs) =
     (if is_slug_char c then c # replace_runs cs
      else hyphen # replace_runs (dropWhile (\<lambda>x. \<not> is_slug_char x) cs))"
  by pat_completeness auto
termination
  by (relation "measure length") (auto simp: less_Suc_eq_le length_dropWhile_le)

text \<open>\<open>.replace(/(^-|-$)/g, '')\<close>: a hyphen at the very start is removed, then a hyphen at
  the very end of what follows.\<close>

definition strip_edges :: "jsstring \<Rightarrow> jsstring" where
  "strip_edges s =
     (let s1 = (case s of [] \<Rightarrow> [] | c # r \<Rightarrow> if c = hyphen then r else s)
      in if s1 \<noteq> [] \<and> last s1 = hyphen then butlast s1 else s1)"

text \<open>\<open>createSlug\<close> (lines 288-293).  \<open>String.prototype.toLowerCase\<close> belongs to the
  JavaScript engine, not to the repository; it is the parameter \<open>toLowerCase\<close>.\<close>

definition createSlug :: "(jsstring \<Rightarrow> jsstring) \<Rightarrow> jsstring \<Rightarrow> jsstring" where
  "createSlug toLowerCase title = strip_edges (replace_runs (toLowerCase title))"

text \<open>What \<open>toLowerCase\<close> does on ASCII text.\<close>

definition asciiLower :: "jsstring \<Rightarrow> jsstring" where
  "asciiLower s = map (\<lambda>c. if 65 \<le> c \<and> c \<le> 90 then c + 32 else c) s"

section \<open>The feed and the lightbox\<close>

record image =
  src :: jsstring
  alt :: jsstring

record BlogPostData =
  url :: jsstring
  title :: jsstring
  date :: jsstring
  author :: "jsstring option"
  content :: jsstring
  featured_image :: "jsstring option"
  images :: "image list option"

text \<open>\<open>currentImageIndex\<close> is a number the code does arithmetic on; \<open>None\<close> is \<open>NaN\<close>.\<close>

record LightboxState =
  isOpen :: bool
  currentImageIndex :: "int option"
  postIndex :: nat

datatype overflow = OverflowInitial | OverflowHidden | OverflowUnset

record page =
  lightbox :: LightboxState
  bodyOverflow :: overflow

definition initial_page :: page where
  "initial_page =
     \<lparr>lightbox = \<lparr>isOpen = False, currentImageIndex = Some 0, postIndex = 0\<rparr>,
      bodyOverflow = OverflowInitial\<rparr>"

text \<open>\<open>posts[i]\<close>: \<open>undefined\<close> out of range.\<close>

definition post_at :: "BlogPostData list \<Rightarrow> nat \<Rightarrow> BlogPostData option" where
  "post_at posts i = (if i < length posts then Some (posts ! i) else None)"

text \<open>\<open>openLightbox\<close> (lines 427-435) and \<open>closeLightbox\<close> (lines 437-444).\<close>

definition openLightbox :: "nat \<Rightarrow> nat \<Rightarrow> page \<Rightarrow> page" where
  "openLightbox pIndex imageIndex pg =
     \<lparr>lightbox = \<lparr>isOpen = True, currentImageIndex = Some (int imageIndex), postIndex = pIndex\<rparr>,
      bodyOverflow = OverflowHidden\<rparr>"

definition closeLightbox :: "page \<Rightarrow> page" where
  "closeLightbox pg =
     \<lparr>lightbox = \<lparr>isOpen = False, currentImageIndex = Some 0, postIndex = 0\<rparr>,
      bodyOverflow = OverflowUnset\<rparr>"

datatype direction = Prev | Next

text \<open>\<open>navigateLightbox\<close> (lines 446-460).  The early return covers a missing post and a
  post without an \<open>images\<close> field; an empty array is truthy and goes on to \<open>% 0\<close>.\<close>

definition navigateLightbox :: "BlogPostData list \<Rightarrow> direction \<Rightarrow> page \<Rightarrow> page" where
  "navigateLightbox posts dir pg =
     (case post_at posts (postIndex (lightbox pg)) of
        None \<Rightarrow> pg
      | Some currentPost \<Rightarrow>
          (case images currentPost of
             None \<Rightarrow> pg
           | Some imgs \<Rightarrow>
               (let totalImages = int (length imgs);
                    newIndex =
                      (case currentImageIndex (lightbox pg) of
                         None \<Rightarrow> None
                       | Some i \<Rightarrow>
                           (case dir of
                              Next \<Rightarrow> js_rem (i + 1) totalImages
                            | Prev \<Rightarrow> js_rem (i - 1 + totalImages) totalImages))
                in pg\<lparr>lightbox := (lightbox pg)\<lparr>currentImageIndex := newIndex\<rparr>\<rparr>)))"

text \<open>The call site of \<open>openLightbox\<close> (lines 675-677 and 816): an \<open>img\<close> with
  \<open>onClick={() => openLightbox(index, imgIndex)}\<close> is rendered for post \<open>index\<close> and
  image \<open>imgIndex\<close> only inside \<open>post.images && post.images.length > 0 && ...map\<close>.\<close>

definition rendered_images :: "BlogPostData list \<Rightarrow> nat \<Rightarrow> nat list" where
  "rendered_images posts index =
     (case post_at posts index of
        None \<Rightarrow> []
      | Some post \<Rightarrow>
          (case images post of
             None \<Rightarrow> []
           | Some imgs \<Rightarrow> if 0 < length imgs then [0..<length imgs] else []))"

text \<open>A click on the image \<open>(index, imgIndex)\<close>: its handler runs when that element is
  on the page; there is nothing to click otherwise.\<close>

definition clickImage :: "BlogPostData list \<Rightarrow> nat \<Rightarrow> nat \<Rightarrow> page \<Rightarrow> page" where
  "clickImage posts index imgIndex pg =
     (if imgIndex \<in> set (rendered_images posts index) then openLightbox index imgIndex pg
      else pg)"

datatype key = Escape | ArrowLeft | ArrowRight | OtherKey

text \<open>The keyboard effect (lines 351-366): the listener exists only while the lightbox
  is open.\<close>

definition handleKeyDown :: "BlogPostData list \<Rightarrow> key \<Rightarrow> page \<Rightarrow> page" where
  "handleKeyDown posts k pg =
     (if isOpen (lightbox pg) then
        (case k of
           Escape \<Rightarrow> closeLightbox pg
         | ArrowLeft \<Rightarrow> navigateLightbox posts Prev pg
         | ArrowRight \<Rightarrow> navigateLightbox posts Next pg
         | OtherKey \<Rightarrow> pg)
      else pg)"

datatype lb_event = ClickImage nat nat | Close | Navigate direction | KeyDown key

fun lb_step :: "BlogPostData list \<Rightarrow> page \<Rightarrow> lb_event \<Rightarrow> page" where
  "lb_step posts pg (ClickImage index imgIndex) = clickImage posts index imgIndex pg"
| "lb_step posts pg Close = closeLightbox pg"
| "lb_step posts pg (Navigate dir) = navigateLightbox posts dir pg"
| "lb_step posts pg (KeyDown k) = handleKeyDown posts k pg"

definition lb_run :: "BlogPostData list \<Rightarrow> lb_event list \<Rightarrow> page" where
  "lb_run posts evs = foldl (lb_step posts) initial_page evs"

section \<open>The gallery: what the browser reports\<close>

text \<open>
  A grid (\<open>.masonry-grid\<close>) is rendered for each post that has images and is named by the
  post's index; an item (\<open>.masonry-item\<close>) is named by its grid and its
  \<open>data-image-index\<close>.  \<open>target.parentElement\<close> of an item is its grid.
\<close>

type_synonym grid = nat
type_synonym item = "grid \<times> nat"

definition parentElement :: "item \<Rightarrow> grid" where
  "parentElement it = fst it"

text \<open>
  Everything the handlers read from the browser when they run: scroll offset, clock,
  viewport and document heights, \<open>parseFloat\<close> of the two computed grid properties
  (\<open>None\<close> for \<open>NaN\<close>), the rendered height of an item's \<open>img\<close> (\<open>None\<close> when
  \<open>querySelector('img')\<close> finds none) and of the item itself, the item's bounding
  rectangle, and whether the item matches \<open>:hover\<close>.
\<close>

record env =
  scrollY :: real
  now :: int
  innerHeight :: real
  scrollHeight :: real
  autoRows :: "grid \<Rightarrow> real option"
  rowGapCss :: "grid \<Rightarrow> real option"
  imgHeight :: "item \<Rightarrow> real option"
  itemHeight :: "item \<Rightarrow> real"
  rectTop :: "item \<Rightarrow> real"
  rectBottom :: "item \<Rightarrow> real"
  hovered :: "item \<Rightarrow> bool"

section \<open>Scroll progress\<close>

text \<open>\<open>handleScroll\<close> (lines 337-343); the result is the new \<open>scrollProgress\<close>.\<close>

definition handleScroll :: "env \<Rightarrow> jsnum" where
  "handleScroll ev =
     (let windowHeight = Finite (innerHeight ev);
          documentHeight = js_sub (Finite (scrollHeight ev)) windowHeight;
          scrolled = Finite (scrollY ev);
          progress = js_div scrolled documentHeight
      in js_min (js_max progress (Finite 0)) (Finite 1))"

section \<open>The gallery: what the handlers write\<close>

text \<open>
  Per item: \<open>style.gridColumn\<close> (\<open>True\<close> for \<open>'1 / -1'\<close>, \<open>False\<close> for \<open>''\<close>), the class
  \<open>masonry-item-expanded\<close>, the class \<open>expanded-image\<close> (on the \<open>img\<close>, or on the item when
  it has none), and the number written into \<open>style.gridRowEnd = `span ${n}`\<close>.
\<close>

record item_dom =
  gridColumnFull :: bool
  expandedClass :: bool
  expandedImage :: bool
  gridRowEnd :: "jsnum option"

text \<open>The callbacks handed to \<open>requestAnimationFrame\<close>, with the variables they close over.\<close>

datatype callback =
    CbExpandSpan item
  | CbScrollIntoView item
  | CbCheckDone real int
  | CbWaitForUnlock item
  | CbCollapseSpan item

text \<open>
  The refs of lines 282-285, the items' styles, the \<open>--grid-scale\<close> property of a grid
  (\<open>True\<close> once set to \<open>'1'\<close>), the pending animation-frame callbacks in the order they
  were requested, and the targets of the \<open>window.scrollTo\<close> calls, latest first.
\<close>

record hover_state =
  itemStyle :: "item \<Rightarrow> item_dom"
  gridScale :: "grid \<Rightarrow> bool"
  expandedItemRef :: "item option"
  expandedGridRef :: "grid option"
  originalScrollYRef :: "real option"
  isForwardScrollRef :: bool
  rafQueue :: "callback list"
  scrollToCalls :: "real list"

definition initial_hover :: hover_state where
  "initial_hover =
     \<lparr>itemStyle = (\<lambda>_. \<lparr>gridColumnFull = False, expandedClass = False, expandedImage = False,
                    gridRowEnd = None\<rparr>),
      gridScale = (\<lambda>_. False),
      expandedItemRef = None,
      expandedGridRef = None,
      originalScrollYRef = None,
      isForwardScrollRef = False,
      rafQueue = [],
      scrollToCalls = []\<rparr>"

definition requestAnimationFrame :: "callback \<Rightarrow> hover_state \<Rightarrow> hover_state" where
  "requestAnimationFrame cb st = st\<lparr>rafQueue := rafQueue st @ [cb]\<rparr>"

definition scrollTo :: "real \<Rightarrow> hover_state \<Rightarrow> hover_state" where
  "scrollTo y st = st\<lparr>scrollToCalls := y # scrollToCalls st\<rparr>"

definition set_gridRowEnd :: "item \<Rightarrow> jsnum \<Rightarrow> hover_state \<Rightarrow> hover_state" where
  "set_gridRowEnd it n st = st\<lparr>itemStyle := (itemStyle st)(it := (itemStyle st it)\<lparr>gridRowEnd := Some n\<rparr>)\<rparr>"

section \<open>Masonry row spans\<close>

text \<open>\<open>getRowMetrics\<close> (lines 372-377).\<close>

definition getRowMetrics :: "env \<Rightarrow> grid \<Rightarrow> real \<times> real" where
  "getRowMetrics ev g = (js_or (autoRows ev g) 8, js_or (rowGapCss ev g) 16)"

text \<open>\<open>Math.max(1, Math.ceil((height + rowGap) / (rowHeight + rowGap)))\<close>, the expression
  of lines 383, 721 and 789.\<close>

definition rowSpan :: "real \<Rightarrow> real \<Rightarrow> real \<Rightarrow> jsnum" where
  "rowSpan height rowHeight rowGap =
     js_max (Finite 1)
       (js_ceil (js_div (js_add (Finite height) (Finite rowGap))
                        (js_add (Finite rowHeight) (Finite rowGap))))"

text \<open>\<open>(item.querySelector('img') as HTMLElement) || item\<close>, measured.\<close>

definition contentHeight :: "env \<Rightarrow> item \<Rightarrow> real" where
  "contentHeight ev it = (case imgHeight ev it of Some h \<Rightarrow> h | None \<Rightarrow> itemHeight ev it)"

text \<open>\<open>computeSpan\<close> (lines 379-385).\<close>

definition computeSpan :: "env \<Rightarrow> item \<Rightarrow> grid \<Rightarrow> hover_state \<Rightarrow> hover_state" where
  "computeSpan ev it g st =
     (let (rowHeight, rowGap) = getRowMetrics ev g;
          height = contentHeight ev it
      in set_gridRowEnd it (rowSpan height rowHeight rowGap) st)"

text \<open>The grids and items on the page (lines 675-681), and \<open>resizeAll\<close> (lines 387-392).\<close>

definition masonryGrids :: "BlogPostData list \<Rightarrow> grid list" where
  "masonryGrids posts = filter (\<lambda>g. rendered_images posts g \<noteq> []) [0..<length posts]"

definition masonryItems :: "BlogPostData list \<Rightarrow> grid \<Rightarrow> item list" where
  "masonryItems posts g = map (\<lambda>i. (g, i)) (rendered_images posts g)"

definition resizeAll :: "BlogPostData list \<Rightarrow> env \<Rightarrow> hover_state \<Rightarrow> hover_state" where
  "resizeAll posts ev st =
     foldl (\<lambda>s g. foldl (\<lambda>s' it. computeSpan ev it g s') s (masonryItems posts g))
       st (masonryGrids posts)"

text \<open>The \<open>load\<close>/\<open>error\<close> handler of an image (lines 399-402) recomputes its own item.\<close>

definition imageSettled :: "env \<Rightarrow> item \<Rightarrow> hover_state \<Rightarrow> hover_state" where
  "imageSettled ev it st = computeSpan ev it (parentElement it) st"

text \<open>The spec's formula for the span, in the spec's words: the two layout parameters
  are the values read from the layout configuration, or \<open>8\<close> and \<open>16\<close> if unavailable.\<close>

definition spec_param :: "real option \<Rightarrow> real \<Rightarrow> real" where
  "spec_param configured d = (case configured of None \<Rightarrow> d | Some v \<Rightarrow> v)"

definition spec_computeSpan :: "real \<Rightarrow> real option \<Rightarrow> real option \<Rightarrow> int" where
  "spec_computeSpan measuredHeight rowHeightCfg rowGapCfg =
     (let rowHeight = spec_param rowHeightCfg 8;
          rowGap = spec_param rowGapCfg 16
      in max 1 \<lceil>(measuredHeight + rowGap) / (rowHeight + rowGap)\<rceil>)"

section \<open>Hover expansion\<close>

text \<open>Lines 696-699 and 777-780: the column span and the two classes are removed; the
  class of the image only when \<open>querySelector('img')\<close> finds one.\<close>

definition clearExpansion :: "env \<Rightarrow> item \<Rightarrow> hover_state \<Rightarrow> hover_state" where
  "clearExpansion ev it st =
     st\<lparr>itemStyle := (itemStyle st)(it := (itemStyle st it)
        \<lparr>gridColumnFull := False,
         expandedClass := False,
         expandedImage := (if imgHeight ev it = None then expandedImage (itemStyle st it) else False)\<rparr>)\<rparr>"

text \<open>Lines 706-709.\<close>

definition applyExpansion :: "item \<Rightarrow> hover_state \<Rightarrow> hover_state" where
  "applyExpansion it st =
     st\<lparr>itemStyle := (itemStyle st)(it := (itemStyle st it)
        \<lparr>gridColumnFull := True, expandedClass := True, expandedImage := True\<rparr>)\<rparr>"

text \<open>\<open>onMouseEnter\<close> (lines 682-752), up to the first \<open>requestAnimationFrame\<close>.\<close>

definition onMouseEnter :: "env \<Rightarrow> item \<Rightarrow> hover_state \<Rightarrow> hover_state" where
  "onMouseEnter ev target st =
     (if isForwardScrollRef st then st
      else
        (let g = parentElement target;
             st1 = (if expandedItemRef st = None
                    then st\<lparr>originalScrollYRef := Some (scrollY ev)\<rparr> else st);
             st2 = (case expandedItemRef st1 of
                      None \<Rightarrow> st1
                    | Some prev \<Rightarrow> if prev \<noteq> target then clearExpansion ev prev st1 else st1);
             st3 = (case expandedGridRef st2 of
                      None \<Rightarrow> st2
                    | Some eg \<Rightarrow>
                        if eg \<noteq> g then st2\<lparr>gridScale := (gridScale st2)(eg := True)\<rparr> else st2);
             st4 = applyExpansion target st3;
             st5 = st4\<lparr>expandedItemRef := Some target, expandedGridRef := Some g\<rparr>
         in requestAnimationFrame (CbExpandSpan target) st5))"

text \<open>\<open>e.relatedTarget\<close> of a \<open>mouseleave\<close>: \<open>null\<close>; the \<open>window\<close> object, which React
  passes when the pointer leaves for no element of the page; a node that is a masonry item
  or lies inside one; or any other node.\<close>

datatype related = RelNone | RelWindow | RelInItem item | RelOther

datatype js_error = TypeError

text \<open>Line 795: \<open>nextTarget && grid.contains(nextTarget) && nextTarget.closest('.masonry-item')\<close>.
  \<open>window\<close> is truthy and not a \<open>Node\<close>, so \<open>grid.contains(window)\<close> throws a \<open>TypeError\<close>.
  Items are the children of their grid, so a node inside an item lies in the grid exactly
  when that item does.\<close>

definition movingWithinGrid :: "related \<Rightarrow> grid \<Rightarrow> js_error + bool" where
  "movingWithinGrid rel g =
     (case rel of
        RelNone \<Rightarrow> Inr False
      | RelWindow \<Rightarrow> Inl TypeError
      | RelInItem j \<Rightarrow> Inr (parentElement j = g)
      | RelOther \<Rightarrow> Inr False)"

text \<open>\<open>onMouseLeave\<close> (lines 753-809): the exception thrown, if any, and the state the
  handler leaves behind.  An exception at line 795 ends the handler after the classes are
  removed and the span recomputation is requested, before the refs are touched.\<close>

definition onMouseLeave ::
  "env \<Rightarrow> item \<Rightarrow> related \<Rightarrow> hover_state \<Rightarrow> js_error option \<times> hover_state" where
  "onMouseLeave ev target rel st =
     (if isForwardScrollRef st \<and> expandedItemRef st = Some target
      then (None, requestAnimationFrame (CbWaitForUnlock target) st)
      else
        (let g = parentElement target;
             st1 = clearExpansion ev target st;
             st2 = requestAnimationFrame (CbCollapseSpan target) st1
         in case movingWithinGrid rel g of
              Inl e \<Rightarrow> (Some e, st2)
            | Inr moving \<Rightarrow>
                (None,
                 if expandedItemRef st2 = Some target then
                   (let st3 = st2\<lparr>expandedItemRef := None, expandedGridRef := None\<rparr>
                    in case originalScrollYRef st3 of
                         None \<Rightarrow> st3
                       | Some orig \<Rightarrow>
                           if moving then st3
                           else (scrollTo (max 0 orig) st3)\<lparr>originalScrollYRef := None\<rparr>)
                 else st2)))"

text \<open>\<open>target.dispatchEvent(new Event('collapse'))\<close> (lines 765-766).  The item carries
  the listeners \<open>onMouseEnter\<close> and \<open>onMouseLeave\<close> and its image \<open>onClick\<close>; nothing in the
  source listens for \<open>collapse\<close>, so the dispatch runs no handler.\<close>

definition dispatchCollapse :: "item \<Rightarrow> hover_state \<Rightarrow> hover_state" where
  "dispatchCollapse target st = st"

text \<open>In the scroll geometry each sum and difference of pixel offsets is rounded with
  \<open>fl\<close>; offsets are bounded by the size of the document, and overflow is not modelled
  there.\<close>

text \<open>The release test of \<open>checkDone\<close> (lines 740-742).\<close>

definition closeEnough :: "env \<Rightarrow> real \<Rightarrow> bool" where
  "closeEnough ev y = (\<bar>fl (scrollY ev - y)\<bar> < 2)"

definition timedOut :: "env \<Rightarrow> int \<Rightarrow> bool" where
  "timedOut ev start = (now ev - start > 1600)"

text \<open>One run of each callback:
  the first frame after an enter (lines 716-722), the second (lines 725-750),
  \<open>checkDone\<close> (lines 739-747), \<open>waitForUnlock\<close> (lines 760-771) and the frame after a
  leave (lines 783-791).\<close>

fun runCallback :: "env \<Rightarrow> hover_state \<Rightarrow> callback \<Rightarrow> hover_state" where
  "runCallback ev st (CbExpandSpan target) =
     (let g = parentElement target;
          rowHeight = js_or (autoRows ev g) 8;
          rowGap = js_or (rowGapCss ev g) 16;
          unscaledHeight = contentHeight ev target;
          st1 = set_gridRowEnd target (rowSpan unscaledHeight rowHeight rowGap) st
      in requestAnimationFrame (CbScrollIntoView target) st1)"
| "runCallback ev st (CbScrollIntoView target) =
     (let viewportHeight = innerHeight ev;
          desiredTop = min (fl (fl (rectTop ev target + scrollY ev) - 120))
                           (fl (scrollHeight ev - viewportHeight));
          outOfViewTop = rectTop ev target < 80;
          outOfViewBottom = rectBottom ev target > fl (viewportHeight - 80)
      in if outOfViewTop \<or> outOfViewBottom then
           (let st1 = st\<lparr>isForwardScrollRef := True\<rparr>;
                y = max 0 desiredTop;
                st2 = scrollTo y st1;
                start = now ev
            in requestAnimationFrame (CbCheckDone y start) st2)
         else st)"
| "runCallback ev st (CbCheckDone y start) =
     (if closeEnough ev y \<or> timedOut ev start then st\<lparr>isForwardScrollRef := False\<rparr>
      else requestAnimationFrame (CbCheckDone y start) st)"
| "runCallback ev st (CbWaitForUnlock target) =
     (if isForwardScrollRef st then requestAnimationFrame (CbWaitForUnlock target) st
      else if hovered ev target then st
      else dispatchCollapse target st)"
| "runCallback ev st (CbCollapseSpan target) =
     (let g = parentElement target;
          rowHeight = js_or (autoRows ev g) 8;
          rowGap = js_or (rowGapCss ev g) 16;
          height = contentHeight ev target
      in set_gridRowEnd target (rowSpan height rowHeight rowGap) st)"

text \<open>An animation frame runs the callbacks requested before it, in order; what they
  request runs in the next frame.\<close>

definition animationFrame :: "env \<Rightarrow> hover_state \<Rightarrow> hover_state" where
  "animationFrame ev st = foldl (runCallback ev) (st\<lparr>rafQueue := []\<rparr>) (rafQueue st)"

text \<open>The frames \<open>f 0, f 1, ..., f (n - 1)\<close> in a row.\<close>

primrec frames :: "(nat \<Rightarrow> env) \<Rightarrow> nat \<Rightarrow> hover_state \<Rightarrow> hover_state" where
  "frames f 0 st = st"
| "frames f (Suc n) st = animationFrame (f n) (frames f n st)"

datatype event =
    MouseEnter item
  | MouseLeave item related
  | AnimationFrame
  | Resize
  | ImageSettled item

text \<open>One event.  An exception thrown by a handler is reported by the browser and changes
  nothing further: the state is the one the handler left behind.\<close>

fun step :: "BlogPostData list \<Rightarrow> hover_state \<Rightarrow> env \<times> event \<Rightarrow> hover_state" where
  "step posts st (ev, MouseEnter it) = onMouseEnter ev it st"
| "step posts st (ev, MouseLeave it rel) = snd (onMouseLeave ev it rel st)"
| "step posts st (ev, AnimationFrame) = animationFrame ev st"
| "step posts st (ev, Resize) = resizeAll posts ev st"
| "step posts st (ev, ImageSettled it) = imageSettled ev it st"

definition run :: "BlogPostData list \<Rightarrow> (env \<times> event) list \<Rightarrow> hover_state" where
  "run posts evs = foldl (step posts) initial_hover evs"

section \<open>Concrete pages and browser readings\<close>

text \<open>A viewport of 800 px showing a document of the same height, not scrolled, with the
  grid properties \<open>grid-auto-rows: 8px\<close> and \<open>row-gap: 16px\<close>: what the browser reports
  while the page shows its loading screen (\<open>min-h-screen\<close>, lines 533-542), when
  \<open>handleScroll\<close> runs once at mount (line 346).\<close>

definition env0 :: env where
  "env0 =
     \<lparr>scrollY = 0, now = 0, innerHeight = 800, scrollHeight = 800,
      autoRows = (\<lambda>_. Some 8), rowGapCss = (\<lambda>_. Some 16),
      imgHeight = (\<lambda>_. None), itemHeight = (\<lambda>_. 0),
      rectTop = (\<lambda>_. 0), rectBottom = (\<lambda>_. 0), hovered = (\<lambda>_. False)\<rparr>"

definition no_image :: image where
  "no_image = \<lparr>src = [], alt = []\<rparr>"

definition post_with :: "image list option \<Rightarrow> BlogPostData" where
  "post_with imgs =
     \<lparr>url = [], title = [], date = [], author = None, content = [],
      featured_image = None, images = imgs\<rparr>"

text \<open>One post with four images whose rendered heights are 200, 400, 150 and 600.\<close>

definition four_heights :: "item \<Rightarrow> real option" where
  "four_heights it =
     (if it = (0, 0) then Some 200 else if it = (0, 1) then Some 400
      else if it = (0, 2) then Some 150 else if it = (0, 3) then Some 600 else None)"

definition env_four :: env where
  "env_four = env0\<lparr>imgHeight := four_heights\<rparr>"

definition posts_four :: "BlogPostData list" where
  "posts_four = [post_with (Some [no_image, no_image, no_image, no_image])]"

definition spans_of :: "hover_state \<Rightarrow> item list \<Rightarrow> jsnum option list" where
  "spans_of st its = map (\<lambda>it. gridRowEnd (itemStyle st it)) its"

text \<open>A grid with \<open>row-gap: 0px\<close> and an image 200 px high.\<close>

definition env_gap0 :: env where
  "env_gap0 = env0\<lparr>rowGapCss := (\<lambda>_. Some 0), imgHeight := (\<lambda>_. Some 200)\<rparr>"

text \<open>A grid with \<open>grid-auto-rows: 8px\<close> and \<open>row-gap: 14.4px\<close>, for which \<open>parseFloat\<close>
  returns the double nearest to 14.4, and an image 120 px high.\<close>

definition env_round :: env where
  "env_round =
     env0\<lparr>rowGapCss := (\<lambda>_. Some (8106479329266893 / 2 ^ 49)), imgHeight := (\<lambda>_. Some 120)\<rparr>"

text \<open>A post without images, then a post with three; the lightbox opened on the last
  image of the second post.\<close>

definition posts_three :: "BlogPostData list" where
  "posts_three = [post_with None, post_with (Some [no_image, no_image, no_image])]"

definition page_three :: page where
  "page_three = openLightbox 1 2 initial_page"

text \<open>The page with the image index replaced.\<close>

definition set_index :: "int \<Rightarrow> page \<Rightarrow> page" where
  "set_index j pg = pg\<lparr>lightbox := (lightbox pg)\<lparr>currentImageIndex := Some j\<rparr>\<rparr>"

text \<open>Shapes of a slug: only characters of \<open>[a-z0-9-]\<close>, and no hyphen next to a hyphen.\<close>

definition slug_alphabet :: "jsstring \<Rightarrow> bool" where
  "slug_alphabet s = list_all (\<lambda>c. is_slug_char c \<or> c = hyphen) s"

definition no_double_hyphen :: "jsstring \<Rightarrow> bool" where
  "no_double_hyphen s = (\<forall>i. Suc i < length s \<longrightarrow> s ! i \<noteq> hyphen \<or> s ! Suc i \<noteq> hyphen)"

text \<open>The lightbox shows an image that exists: its post exists, has an \<open>images\<close> array,
  and the index is a position of that array.\<close>

definition shows_image :: "BlogPostData list \<Rightarrow> page \<Rightarrow> bool" where
  "shows_image posts pg =
     (case post_at posts (postIndex (lightbox pg)) of
        None \<Rightarrow> False
      | Some post \<Rightarrow>
          (case images post of
             None \<Rightarrow> False
           | Some imgs \<Rightarrow>
               (case currentImageIndex (lightbox pg) of
                  None \<Rightarrow> False
                | Some i \<Rightarrow> 0 \<le> i \<and> i < int (length imgs))))"

definition lb_inv :: "BlogPostData list \<Rightarrow> page \<Rightarrow> bool" where
  "lb_inv posts pg = (if isOpen (lightbox pg) then shows_image posts pg else True)"

section \<open>A hover session, step by step\<close>

text \<open>An item counts as expanded when it carries the class \<open>masonry-item-expanded\<close> or the
  full-row column span.\<close>

definition is_expanded :: "hover_state \<Rightarrow> item \<Rightarrow> bool" where
  "is_expanded st it = (expandedClass (itemStyle st it) \<or> gridColumnFull (itemStyle st it))"

text \<open>Every expanded item is the one \<open>expandedItemRef\<close> points to.\<close>

definition hover_inv :: "hover_state \<Rightarrow> bool" where
  "hover_inv st = (\<forall>a. is_expanded st a \<longrightarrow> expandedItemRef st = Some a)"

text \<open>
  Browser readings for a gallery in a viewport of 800 px and a document of 5000 px, with
  \<open>grid-auto-rows: 8px\<close> and \<open>row-gap: 16px\<close>: an image is 600 px high while its item is
  expanded and 200 px otherwise; \<open>rtop\<close> is the top of the measured item in the viewport;
  \<open>pointer\<close> is the item under the pointer.
\<close>

definition gallery_env :: "real \<Rightarrow> int \<Rightarrow> item option \<Rightarrow> item option \<Rightarrow> real \<Rightarrow> env" where
  "gallery_env sy t expanded pointer rtop =
     \<lparr>scrollY = sy, now = t, innerHeight = 800, scrollHeight = 5000,
      autoRows = (\<lambda>_. Some 8), rowGapCss = (\<lambda>_. Some 16),
      imgHeight = (\<lambda>it. Some (if Some it = expanded then 600 else 200)),
      itemHeight = (\<lambda>it. if Some it = expanded then 600 else 200),
      rectTop = (\<lambda>_. rtop),
      rectBottom = (\<lambda>it. rtop + (if Some it = expanded then 600 else 200)),
      hovered = (\<lambda>it. Some it = pointer)\<rparr>"

text \<open>
  The pointer enters item 0 of grid 0, which lies below the fold: the first frame writes
  its expanded span, the second starts a forced scroll to 800 and engages the lock.  One
  frame later the pointer leaves the item for a place outside the gallery, while the
  scroll is under way; the scroll goes on for a frame and in a later frame has reached 799.
\<close>

definition deferred_leave :: "(env \<times> event) list" where
  "deferred_leave =
     [(gallery_env 0 1000 None (Some (0, 0)) 920, MouseEnter (0, 0)),
      (gallery_env 0 1016 (Some (0, 0)) (Some (0, 0)) 920, AnimationFrame),
      (gallery_env 0 1032 (Some (0, 0)) (Some (0, 0)) 920, AnimationFrame),
      (gallery_env 80 1048 (Some (0, 0)) (Some (0, 0)) 840, AnimationFrame),
      (gallery_env 120 1060 (Some (0, 0)) None 800, MouseLeave (0, 0) RelOther),
      (gallery_env 160 1064 (Some (0, 0)) None 760, AnimationFrame),
      (gallery_env 799 1500 (Some (0, 0)) None 121, AnimationFrame)]"

text \<open>Afterwards the pointer enters item 2 of the same grid, which is in view, and two
  frames pass.\<close>

definition next_hover :: "(env \<times> event) list" where
  "next_hover =
     [(gallery_env 799 2000 (Some (0, 0)) (Some (0, 2)) 100, MouseEnter (0, 2)),
      (gallery_env 799 2016 (Some (0, 2)) (Some (0, 2)) 100, AnimationFrame),
      (gallery_env 799 2032 (Some (0, 2)) (Some (0, 2)) 100, AnimationFrame)]"

definition settled_env :: env where
  "settled_env = gallery_env 799 2048 (Some (0, 2)) (Some (0, 2)) 100"

text \<open>
  Two forced scrolls that overlap.  The pointer enters item 0 of grid 0, which reaches
  below the fold, and one frame later moves on into item 1 beside it, before the second
  frame after the first enter has run.  That frame starts the forced scroll for item 0, to
  530, and engages the lock; the next frame starts the forced scroll for item 1, to 754.
  The page then scrolls towards 754 and passes 529.
\<close>

definition overlapping_scrolls :: "(env \<times> event) list" where
  "overlapping_scrolls =
     [(gallery_env 0 1000 None (Some (0, 0)) 650, MouseEnter (0, 0)),
      (gallery_env 0 1016 (Some (0, 0)) (Some (0, 0)) 650, AnimationFrame),
      (gallery_env 0 1020 (Some (0, 0)) (Some (0, 1)) 650, MouseLeave (0, 0) (RelInItem (0, 1))),
      (gallery_env 0 1024 None (Some (0, 1)) 650, MouseEnter (0, 1)),
      (gallery_env 0 1032 (Some (0, 1)) (Some (0, 1)) 650, AnimationFrame),
      (gallery_env 20 1048 (Some (0, 1)) (Some (0, 1)) 854, AnimationFrame),
      (gallery_env 180 1112 (Some (0, 1)) (Some (0, 1)) 694, AnimationFrame),
      (gallery_env 360 1176 (Some (0, 1)) (Some (0, 1)) 514, AnimationFrame),
      (gallery_env 529 1240 (Some (0, 1)) (Some (0, 1)) 345, AnimationFrame)]"

section \<open>Rounding to doubles: results\<close>

lemma ulp_pos [simp]: "0 < ulp x"
  by (simp add: ulp_def)

lemma ulp_nonzero [simp]: "ulp x \<noteq> 0"
  using ulp_pos[of x] by linarith

lemma abs_ulp [simp]: "\<bar>ulp x\<bar> = ulp x"
  using ulp_pos[of x] by linarith

lemma floor_log2_eq:
  assumes "2 powi e \<le> x" "x < 2 powi (e + 1)"
  shows "\<lfloor>log 2 x\<rfloor> = e"
proof -
  have pos: "0 < x" using assms(1) by (smt (verit) zero_less_power_int)
  have "2 powr (real_of_int e) \<le> x" "x < 2 powr (real_of_int e + 1)"
    using assms powr_real_of_int'[of 2 e] powr_real_of_int'[of 2 "e + 1"] by (simp_all add: add.commute)
  then show ?thesis using floor_log_eq_powr_iff[OF pos, of 2 e] by simp
qed

lemma binade_eq:
  assumes "2 powi e \<le> \<bar>x\<bar>" "\<bar>x\<bar> < 2 powi (e + 1)" "- 1022 \<le> e"
  shows "binade x = e"
  using floor_log2_eq[OF assms(1,2)] assms(3) by (simp add: binade_def)

lemma round_half_even_of_int [simp]: "round_half_even (of_int n) = n"
  by (simp add: round_half_even_def)

lemma round_half_even_error: "\<bar>of_int (round_half_even t) - t\<bar> \<le> 1 / 2"
  unfolding round_half_even_def Let_def
  by (auto simp: abs_if) linarith+

lemma fl_error: "\<bar>fl x - x\<bar> \<le> ulp x / 2"
proof (cases "x = 0")
  case True
  then show ?thesis by (simp add: fl_def less_imp_le)
next
  case False
  have "fl x - x = (of_int (round_half_even (x / ulp x)) - x / ulp x) * ulp x"
    using False by (simp add: fl_def algebra_simps)
  then have "\<bar>fl x - x\<bar> = \<bar>of_int (round_half_even (x / ulp x)) - x / ulp x\<bar> * ulp x"
    by (simp add: abs_mult)
  also have "\<dots> \<le> (1 / 2) * ulp x"
    by (intro mult_right_mono round_half_even_error) (simp add: less_imp_le)
  finally show ?thesis by simp
qed

lemma fl_exact:
  assumes "x / ulp x = of_int m"
  shows "fl x = x"
proof (cases "x = 0")
  case True
  then show ?thesis by (simp add: fl_def)
next
  case False
  have "fl x = of_int m * ulp x" using False assms by (simp add: fl_def)
  also have "\<dots> = (x / ulp x) * ulp x" using assms by simp
  also have "\<dots> = x" by simp
  finally show ?thesis .
qed


lemma two_powi_shift:
  assumes "k \<le> 52"
  shows "(2::real) powi (k - 52) * 2 ^ nat (52 - k) = 1"
proof -
  have "(2::real) ^ nat (52 - k) = 2 powi (52 - k)"
    using assms by (metis diff_ge_0_iff_ge nat_0_le power_int_of_nat)
  moreover have "(2::real) powi (k - 52) * 2 powi (52 - k) = 2 powi ((k - 52) + (52 - k))"
    using power_int_add[of "2::real" "k - 52" "52 - k"] by simp
  ultimately show ?thesis by simp
qed

lemma fl_of_int:
  assumes "\<bar>n\<bar> < 2 ^ 53"
  shows "fl (of_int n) = of_int n"
proof (cases "n = 0")
  case True
  then show ?thesis by (simp add: fl_def)
next
  case False
  let ?a = "\<bar>real_of_int n\<bar>"
  define k where "k = \<lfloor>log 2 ?a\<rfloor>"
  have "(1::int) \<le> \<bar>n\<bar>" using False by simp
  then have "real_of_int 1 \<le> real_of_int \<bar>n\<bar>" by (simp only: of_int_le_iff)
  then have a1: "1 \<le> ?a" by simp
  have a2: "?a < 2 ^ 53" using assms by (metis of_int_abs of_int_less_numeral_power_cancel_iff)
  have pos: "0 < ?a" using a1 by linarith
  have "2 powr k \<le> ?a" "?a < 2 powr (k + 1)"
    using floor_log_eq_powr_iff[OF pos, of 2 k] by (simp_all add: k_def)
  then have b: "2 powi k \<le> ?a" "?a < 2 powi (k + 1)"
    using powr_real_of_int'[of 2 k] powr_real_of_int'[of 2 "k + 1"] by (simp_all add: add.commute)
  have k0: "0 \<le> k"
  proof (rule ccontr)
    assume "\<not> 0 \<le> k"
    then have "k + 1 \<le> 0" by simp
    then have "(2::real) powi (k + 1) \<le> 2 powi 0" by (intro power_int_increasing) simp_all
    then show False using b(2) a1 by simp
  qed
  have k52: "k \<le> 52"
  proof (rule ccontr)
    assume "\<not> k \<le> 52"
    then have "53 \<le> k" by simp
    then have "(2::real) powi 53 \<le> 2 powi k" by (intro power_int_increasing) simp_all
    then show False using b(1) a2 by simp
  qed
  have bin: "binade (of_int n) = k" using k0 by (simp add: binade_def k_def)
  have "real_of_int n / ulp (of_int n) = real_of_int n * 2 ^ nat (52 - k)"
    using two_powi_shift[OF k52] by (simp add: ulp_def bin field_simps)
  also have "\<dots> = of_int (n * 2 ^ nat (52 - k))" by simp
  finally show ?thesis by (rule fl_exact)
qed

lemma fl_numeral [simp]: "numeral w < (2::int) ^ 53 \<Longrightarrow> fl (numeral w) = numeral w"
  using fl_of_int[of "numeral w"] by simp

lemma fl_neg_numeral [simp]: "numeral w < (2::int) ^ 53 \<Longrightarrow> fl (- numeral w) = - numeral w"
  using fl_of_int[of "- numeral w"] by simp

lemma fl_zero [simp]: "fl 0 = 0"
  by (simp add: fl_def)

lemma fl_one [simp]: "fl 1 = 1"
  using fl_of_int[of 1] by simp

lemma fl_minus_one [simp]: "fl (- 1) = - 1"
  using fl_of_int[of "- 1"] by simp

lemma fl_eval:
  assumes "2 powi e \<le> \<bar>x\<bar>" "\<bar>x\<bar> < 2 powi (e + 1)" "- 1022 \<le> e"
  shows "fl x = of_int (round_half_even (x / 2 powi (e - 52))) * 2 powi (e - 52)"
proof -
  have "x \<noteq> 0" using assms(1) by (smt (verit) zero_less_power_int)
  then show ?thesis using binade_eq[OF assms] by (simp add: fl_def ulp_def)
qed

lemma floor_log2_bounds:
  assumes "0 < a"
  shows "2 powi \<lfloor>log 2 a\<rfloor> \<le> a" "a < 2 powi (\<lfloor>log 2 a\<rfloor> + 1)"
proof -
  have "2 powr \<lfloor>log 2 a\<rfloor> \<le> a" "a < 2 powr (\<lfloor>log 2 a\<rfloor> + 1)"
    using floor_log_eq_powr_iff[OF assms, of 2 "\<lfloor>log 2 a\<rfloor>"] by simp_all
  then show "2 powi \<lfloor>log 2 a\<rfloor> \<le> a" "a < 2 powi (\<lfloor>log 2 a\<rfloor> + 1)"
    using powr_real_of_int'[of 2 "\<lfloor>log 2 a\<rfloor>"] powr_real_of_int'[of 2 "\<lfloor>log 2 a\<rfloor> + 1"]
    by (simp_all add: add.commute)
qed

lemma ulp_le_rel:
  assumes "2 powi (- 1022) \<le> \<bar>x\<bar>"
  shows "ulp x \<le> \<bar>x\<bar> / 2 ^ 52"
proof -
  have pos: "0 < \<bar>x\<bar>" using assms by (smt (verit) zero_less_power_int)
  let ?k = "\<lfloor>log 2 \<bar>x\<bar>\<rfloor>"
  have "- 1022 \<le> ?k"
  proof (rule ccontr)
    assume "\<not> - 1022 \<le> ?k"
    then have "?k + 1 \<le> - 1022" by linarith
    then have "(2::real) powi (?k + 1) \<le> 2 powi (- 1022)" by (intro power_int_increasing) simp_all
    then show False using floor_log2_bounds(2)[OF pos] assms by linarith
  qed
  then have "ulp x = 2 powi (?k - 52)" by (simp add: ulp_def binade_def)
  also have "\<dots> = 2 powi ?k / 2 ^ 52"
    using power_int_diff[of "2::real" ?k 52] by simp
  also have "\<dots> \<le> \<bar>x\<bar> / 2 ^ 52"
    using floor_log2_bounds(1)[OF pos] by (simp add: divide_right_mono)
  finally show ?thesis .
qed

lemma fl_rel_error:
  assumes "2 powi (- 1022) \<le> \<bar>x\<bar>"
  shows "\<bar>fl x - x\<bar> \<le> \<bar>x\<bar> / 2 ^ 53"
proof -
  have "\<bar>fl x - x\<bar> \<le> ulp x / 2" by (rule fl_error)
  also have "\<dots> \<le> (\<bar>x\<bar> / 2 ^ 52) / 2" using ulp_le_rel[OF assms] by simp
  also have "\<dots> = \<bar>x\<bar> / 2 ^ 53" by simp
  finally show ?thesis .
qed

lemma fl_bounds:
  assumes "2 powi (- 1022) \<le> x"
  shows "x / 2 \<le> fl x" "fl x \<le> 2 * x"
proof -
  have pos: "0 < x" using assms by (smt (verit) zero_less_power_int)
  define d where "d = x / 2 ^ 53"
  have "\<bar>fl x - x\<bar> \<le> \<bar>x\<bar> / 2 ^ 53" using assms pos by (intro fl_rel_error) simp
  then have e: "\<bar>fl x - x\<bar> \<le> d" using pos by (simp add: d_def)
  have "x / 2 ^ 53 \<le> x / 2" using pos by (intro divide_left_mono) simp_all
  then have "d \<le> x / 2" by (simp add: d_def)
  then show "x / 2 \<le> fl x" "fl x \<le> 2 * x" using e pos by linarith+
qed

lemma to_double_finite:
  assumes "2 powi (- 1022) \<le> x" "x \<le> 2 ^ 1022"
  shows "to_double x = Finite (fl x)"
proof -
  have "0 < x" using assms(1) by (smt (verit) zero_less_power_int)
  then have "\<bar>fl x\<bar> \<le> 2 * x" using fl_bounds[OF assms(1)] by (simp add: abs_le_iff)
  also have "\<dots> \<le> 2 * 2 ^ 1022" using assms(2) by simp
  also have "\<dots> < (2::real) ^ 1024" by simp
  finally show ?thesis by (simp add: to_double_def)
qed

lemma to_double_of_int:
  assumes "\<bar>n\<bar> < 2 ^ 53"
  shows "to_double (of_int n) = Finite (of_int n)"
proof -
  define B where "B = (2::real) ^ 1024"
  have "real_of_int \<bar>n\<bar> < real_of_int (2 ^ 53)" using assms by (simp only: of_int_less_iff)
  then have "\<bar>real_of_int n\<bar> < 2 ^ 53" by simp
  moreover have "(2::real) ^ 53 < B" unfolding B_def by (rule power_strict_increasing) simp_all
  ultimately have "\<not> B \<le> \<bar>real_of_int n\<bar>" by linarith
  then have "\<not> B \<le> \<bar>fl (real_of_int n)\<bar>" by (simp add: fl_of_int[OF assms])
  then show ?thesis unfolding to_double_def B_def[symmetric] by (simp add: fl_of_int[OF assms])
qed

lemma to_double_numeral [simp]:
  "numeral w < (2::int) ^ 53 \<Longrightarrow> to_double (numeral w) = Finite (numeral w)"
  using to_double_of_int[of "numeral w"] by simp

lemma to_double_zero [simp]: "to_double 0 = Finite 0"
  by (simp add: to_double_def)

lemma ceiling_fl:
  assumes "1 \<le> x" "of_int k < x - x / 2 ^ 53" "x + x / 2 ^ 53 \<le> of_int k + 1"
  shows "\<lceil>fl x\<rceil> = k + 1"
proof -
  have "2 powi (- 1022) \<le> \<bar>x\<bar>"
  proof -
    have "(2::real) powi (- 1022) \<le> 2 powi 0" by (intro power_int_increasing) simp_all
    then show ?thesis using assms(1) by simp
  qed
  then have "\<bar>fl x - x\<bar> \<le> \<bar>x\<bar> / 2 ^ 53" by (rule fl_rel_error)
  moreover have "\<bar>x\<bar> = x" using assms(1) by simp
  ultimately have e: "\<bar>fl x - x\<bar> \<le> x / 2 ^ 53" by simp
  have "of_int k < fl x" "fl x \<le> of_int k + 1" using assms(2,3) e by linarith+
  then show ?thesis by (simp add: ceiling_eq_iff)
qed

text \<open>Spans of the heights that occur below, under \<open>grid-auto-rows: 8px\<close> and
  \<open>row-gap: 16px\<close>.\<close>

lemma rowSpan_finite:
  assumes "js_div (js_add (Finite h) (Finite rowGap)) (js_add (Finite rowHeight) (Finite rowGap))
             = Finite q"
  shows "rowSpan h rowHeight rowGap = Finite (of_int (max 1 \<lceil>q\<rceil>))"
  using assms by (simp add: rowSpan_def max_def)

lemma rowSpan_600 [simp]: "rowSpan 600 8 16 = Finite 26"
proof -
  have "\<lceil>fl (616 / 24)\<rceil> = 26" by (rule ceiling_fl[of _ 25, simplified]) simp_all
  moreover have "to_double (616 / 24) = Finite (fl (616 / 24))"
    by (rule to_double_finite) simp_all
  ultimately show ?thesis by (simp add: rowSpan_def)
qed

lemma rowSpan_400 [simp]: "rowSpan 400 8 16 = Finite 18"
proof -
  have "\<lceil>fl (416 / 24)\<rceil> = 18" by (rule ceiling_fl[of _ 17, simplified]) simp_all
  moreover have "to_double (416 / 24) = Finite (fl (416 / 24))"
    by (rule to_double_finite) simp_all
  ultimately show ?thesis by (simp add: rowSpan_def)
qed

lemma rowSpan_150 [simp]: "rowSpan 150 8 16 = Finite 7"
proof -
  have "\<lceil>fl (166 / 24)\<rceil> = 7" by (rule ceiling_fl[of _ 6, simplified]) simp_all
  moreover have "to_double (166 / 24) = Finite (fl (166 / 24))"
    by (rule to_double_finite) simp_all
  ultimately show ?thesis by (simp add: rowSpan_def)
qed

lemma rowSpan_200 [simp]: "rowSpan 200 8 16 = Finite 9"
  by (simp add: rowSpan_def)

section \<open>Scroll progress: results\<close>

lemma clamp_unit:
  "js_min (js_max x (Finite 0)) (Finite 1) = NaN
   \<or> (\<exists>p. js_min (js_max x (Finite 0)) (Finite 1) = Finite p \<and> 0 \<le> p \<and> p \<le> 1)"
  by (cases x) simp_all

text \<open>The clamp leaves \<open>NaN\<close> as the only value outside \<open>[0, 1]\<close>.\<close>

lemma handleScroll_range:
  "handleScroll ev = NaN \<or> (\<exists>p. handleScroll ev = Finite p \<and> 0 \<le> p \<and> p \<le> 1)"
  unfolding handleScroll_def Let_def by (rule clamp_unit)

text \<open>
  C5 (the scroll progress always lies in \<open>[0, 1]\<close>, and a document no taller than the
  viewport gives \<open>0\<close>).  The code clamps with \<open>Math.min(Math.max(progress, 0), 1)\<close> but
  does not guard the division: when the document is exactly as tall as the viewport and
  the page is not scrolled, \<open>progress\<close> is \<open>0 / 0 = NaN\<close>, both clamps pass \<open>NaN\<close> on, and
  the stored progress is \<open>NaN\<close>, which is neither \<open>0\<close> nor in \<open>[0, 1]\<close>.
\<close>

theorem handleScroll_short_document_NaN:
  "handleScroll env0 = NaN"
  by (simp add: handleScroll_def env0_def js_sub_def)

section \<open>Masonry row spans: results\<close>

lemma gridRowEnd_set [simp]:
  "gridRowEnd (itemStyle (set_gridRowEnd it n st) it') =
     (if it' = it then Some n else gridRowEnd (itemStyle st it'))"
  by (simp add: set_gridRowEnd_def)

text \<open>What \<open>computeSpan\<close> writes, for every reading of the browser.\<close>

lemma computeSpan_writes:
  "gridRowEnd (itemStyle (computeSpan ev it g st) it)
     = Some (rowSpan (contentHeight ev it) (js_or (autoRows ev g) 8) (js_or (rowGapCss ev g) 16))"
  by (simp add: computeSpan_def getRowMetrics_def)

text \<open>The three roundings for an image 120 px high under \<open>grid-auto-rows: 8px\<close> and
  \<open>row-gap: 14.4px\<close>: the quotient of the two rounded sums is just above 6, and rounds to the
  double after 6.\<close>

lemma fl_gap_sum: "fl (120 + 8106479329266893 / 2 ^ 49) = 4728779608739021 / 2 ^ 45"
  by (subst fl_eval[where e = 7]) (simp_all add: round_half_even_def Let_def)

lemma fl_row_sum: "fl (8 + 8106479329266893 / 2 ^ 49) = 3152519739159347 / 2 ^ 47"
  by (subst fl_eval[where e = 4]) (simp_all add: round_half_even_def Let_def)

lemma fl_quotient:
  "fl ((4728779608739021 / 2 ^ 45) / (3152519739159347 / 2 ^ 47)) = 6755399441055745 / 2 ^ 50"
  by (subst fl_eval[where e = 2]) (simp_all add: round_half_even_def Let_def)

lemma to_double_eq: "fl x = r \<Longrightarrow> \<bar>r\<bar> < 2 ^ 1024 \<Longrightarrow> to_double x = Finite r"
  by (simp add: to_double_def)

lemma span_quotient_rounded:
  "js_div (js_add (Finite 120) (Finite (8106479329266893 / 2 ^ 49)))
          (js_add (Finite 8) (Finite (8106479329266893 / 2 ^ 49)))
     = Finite (6755399441055745 / 2 ^ 50)"
proof -
  have a: "to_double (120 + 8106479329266893 / 2 ^ 49) = Finite (4728779608739021 / 2 ^ 45)"
    by (rule to_double_eq[OF fl_gap_sum]) simp
  have b: "to_double (8 + 8106479329266893 / 2 ^ 49) = Finite (3152519739159347 / 2 ^ 47)"
    by (rule to_double_eq[OF fl_row_sum]) simp
  have c: "to_double ((4728779608739021 / 2 ^ 45) / (3152519739159347 / 2 ^ 47))
             = Finite (6755399441055745 / 2 ^ 50)"
    by (rule to_double_eq[OF fl_quotient]) simp
  have nz: "(3152519739159347 / 2 ^ 47 \<noteq> (0::real)) = True" by simp
  show ?thesis by (simp only: js_add.simps a b js_div.simps nz if_True c)
qed

lemma rowSpan_rounded: "rowSpan 120 8 (8106479329266893 / 2 ^ 49) = Finite 7"
proof -
  have d: "rowSpan 120 8 (8106479329266893 / 2 ^ 49)
      = Finite (of_int (max 1 \<lceil>6755399441055745 / 2 ^ 50 :: real\<rceil>))"
    using span_quotient_rounded by (rule rowSpan_finite)
  have e: "\<lceil>6755399441055745 / 2 ^ 50 :: real\<rceil> = 7" by (simp add: ceiling_eq_iff)
  have "Finite (of_int (max 1 \<lceil>6755399441055745 / 2 ^ 50 :: real\<rceil>)) = Finite 7"
    unfolding e by simp
  with d show ?thesis by (rule trans)
qed

text \<open>
  C2, as the claim states it, fails at two kinds of input.  With \<open>row-gap: 0px\<close> the
  computed style is available and is \<open>0\<close>, and the formula of the claim gives
  \<open>ceil(200 / 8) = 25\<close> for an image 200 px high, but \<open>parseFloat(...) || 16\<close> replaces the
  \<open>0\<close> by \<open>16\<close> and the code writes \<open>ceil(216 / 24) = 9\<close>.  With \<open>row-gap: 14.4px\<close> and an
  image 120 px high the formula gives \<open>6\<close> (the quotient is just below 6), but the code
  computes in doubles a quotient one unit in the last place above 6 and writes \<open>7\<close>.
\<close>

theorem computeSpan_counterexample:
  "gridRowEnd (itemStyle (computeSpan env_gap0 (0, 0) 0 initial_hover) (0, 0))
     \<noteq> Some (Finite (of_int (spec_computeSpan (contentHeight env_gap0 (0, 0))
            (autoRows env_gap0 0) (rowGapCss env_gap0 0))))
   \<and> gridRowEnd (itemStyle (computeSpan env_round (0, 0) 0 initial_hover) (0, 0))
     \<noteq> Some (Finite (of_int (spec_computeSpan (contentHeight env_round (0, 0))
            (autoRows env_round 0) (rowGapCss env_round 0))))"
proof -
  have "gridRowEnd (itemStyle (computeSpan env_gap0 (0, 0) 0 initial_hover) (0, 0)) = Some (Finite 9)"
    by (simp add: computeSpan_writes js_or_def contentHeight_def env_gap0_def env0_def)
  moreover have "spec_computeSpan (contentHeight env_gap0 (0, 0)) (autoRows env_gap0 0)
       (rowGapCss env_gap0 0) = 25"
    by (simp add: contentHeight_def env_gap0_def env0_def spec_computeSpan_def spec_param_def)
  moreover have "gridRowEnd (itemStyle (computeSpan env_round (0, 0) 0 initial_hover) (0, 0))
       = Some (Finite 7)"
    by (simp add: computeSpan_writes js_or_def contentHeight_def env_round_def env0_def
        rowSpan_rounded[simplified])
  moreover have "spec_computeSpan (contentHeight env_round (0, 0)) (autoRows env_round 0)
       (rowGapCss env_round 0) = 6"
    by (simp add: contentHeight_def env_round_def env0_def spec_computeSpan_def spec_param_def
        ceiling_eq_iff)
  ultimately show ?thesis by simp
qed

text \<open>For non-negative lengths up to \<open>2^300\<close>, with row height and gap at least \<open>2^-300\<close>,
  the quotient in doubles is a positive finite number.  A browser holds lengths in single
  precision or in fixed point, so its magnitudes lie between \<open>2^-149\<close> and \<open>2^128\<close>.\<close>

lemma span_quotient_finite:
  assumes h: "0 \<le> h" "h \<le> 2 ^ 300"
      and r: "2 powi (- 300) \<le> r" "r \<le> 2 ^ 300"
      and g: "2 powi (- 300) \<le> g" "g \<le> 2 ^ 300"
  shows "\<exists>q. js_div (js_add (Finite h) (Finite g)) (js_add (Finite r) (Finite g)) = Finite q
           \<and> 0 < q"
proof -
  define lo where "lo = (2::real) powi (- 300)"
  define hi where "hi = (2::real) ^ 300"
  define tiny where "tiny = (2::real) powi (- 1022)"
  define huge where "huge = (2::real) ^ 1022"
  have lo_pos: "0 < lo" by (simp add: lo_def)
  have tiny_lo: "tiny \<le> lo" unfolding tiny_def lo_def by (intro power_int_increasing) simp_all
  have hi_huge: "2 * hi \<le> huge" unfolding hi_def huge_def by simp
  have q_lo: "tiny \<le> (lo / 2) / (2 * (2 * hi))" unfolding tiny_def lo_def hi_def by simp
  have q_hi: "(2 * (2 * hi)) / (lo / 2) \<le> huge" unfolding huge_def lo_def hi_def by simp
  let ?A = "h + g" and ?B = "r + g"
  have A: "lo \<le> ?A" "?A \<le> 2 * hi" using h g by (simp_all add: lo_def hi_def)
  have B: "lo \<le> ?B" "?B \<le> 2 * hi" using r g lo_pos by (simp_all add: lo_def hi_def)
  have tA: "to_double ?A = Finite (fl ?A)"
    using A tiny_lo hi_huge by (intro to_double_finite) (simp_all add: tiny_def huge_def)
  have tB: "to_double ?B = Finite (fl ?B)"
    using B tiny_lo hi_huge by (intro to_double_finite) (simp_all add: tiny_def huge_def)
  have fA: "?A / 2 \<le> fl ?A" "fl ?A \<le> 2 * ?A"
    using A tiny_lo by (intro fl_bounds; simp add: tiny_def)+
  have fB: "?B / 2 \<le> fl ?B" "fl ?B \<le> 2 * ?B"
    using B tiny_lo by (intro fl_bounds; simp add: tiny_def)+
  have pA1: "lo / 2 \<le> fl ?A" using fA(1) A(1) by argo
  have pA2: "fl ?A \<le> 2 * (2 * hi)" using fA(2) A(2) by argo
  have pB1: "lo / 2 \<le> fl ?B" using fB(1) B(1) by argo
  have pB2: "fl ?B \<le> 2 * (2 * hi)" using fB(2) B(2) by argo
  have posB: "0 < fl ?B" using pB1 lo_pos by linarith
  define x where "x = fl ?A / fl ?B"
  have "(lo / 2) / (2 * (2 * hi)) \<le> x"
    unfolding x_def using pA1 pB2 posB lo_pos by (intro frac_le) simp_all
  then have x_lo: "tiny \<le> x" using q_lo by linarith
  have "x \<le> (2 * (2 * hi)) / (lo / 2)"
    unfolding x_def using pA1 pA2 pB1 lo_pos by (intro frac_le) simp_all
  then have x_hi: "x \<le> huge" using q_hi by linarith
  have tx: "to_double x = Finite (fl x)"
    using x_lo x_hi by (intro to_double_finite) (simp_all add: tiny_def huge_def)
  have "0 < tiny" by (simp add: tiny_def)
  then have "0 < x" using x_lo by linarith
  moreover have "x / 2 \<le> fl x" using x_lo by (intro fl_bounds) (simp add: tiny_def)
  ultimately have "0 < fl x" by linarith
  moreover have "js_div (js_add (Finite h) (Finite g)) (js_add (Finite r) (Finite g)) = Finite (fl x)"
    using posB tx by (simp add: tA tB x_def)
  ultimately show ?thesis by blast
qed

text \<open>
  C2, amended: for every item and grid, with lengths in the range a browser can report
  (heights, row heights and gaps non-negative and at most \<open>2^300\<close>, the positive ones at
  least \<open>2^-300\<close>), \<open>computeSpan\<close> writes the span \<open>max(1, ceil(q))\<close>, an integer at least 1, where
  \<open>q\<close> is \<open>(measuredHeight + rowGap) / (rowHeight + rowGap)\<close> computed in double precision
  (each sum and the quotient rounded to the nearest double), \<open>measuredHeight\<close> is the
  rendered height of the item's image, or of the item itself when it has no image, and
  \<open>rowHeight\<close> and \<open>rowGap\<close> are the values parsed from the grid's computed style at the time
  of the call, replaced by \<open>8\<close> and \<open>16\<close> when the parsed value is \<open>NaN\<close> or \<open>0\<close>.
\<close>

theorem computeSpan_formula:
  assumes rh: "rowHeight = (case autoRows ev g of None \<Rightarrow> 8 | Some v \<Rightarrow> if v = 0 then 8 else v)"
      and rg: "rowGap = (case rowGapCss ev g of None \<Rightarrow> 16 | Some v \<Rightarrow> if v = 0 then 16 else v)"
      and mh: "measuredHeight = (case imgHeight ev it of Some h \<Rightarrow> h | None \<Rightarrow> itemHeight ev it)"
      and lengths: "0 \<le> measuredHeight" "measuredHeight \<le> 2 ^ 300"
                   "2 powi (- 300) \<le> rowHeight" "rowHeight \<le> 2 ^ 300"
                   "2 powi (- 300) \<le> rowGap" "rowGap \<le> 2 ^ 300"
  shows "\<exists>q n. js_div (js_add (Finite measuredHeight) (Finite rowGap))
                      (js_add (Finite rowHeight) (Finite rowGap)) = Finite q
           \<and> gridRowEnd (itemStyle (computeSpan ev it g st) it) = Some (Finite (of_int n))
           \<and> n = max 1 \<lceil>q\<rceil> \<and> 1 \<le> n"
proof -
  have e1: "js_or (autoRows ev g) 8 = rowHeight" and e2: "js_or (rowGapCss ev g) 16 = rowGap"
    unfolding rh rg js_or_def by simp_all
  have e3: "contentHeight ev it = measuredHeight"
    unfolding mh contentHeight_def by simp
  from span_quotient_finite[OF lengths] obtain q where
    q: "js_div (js_add (Finite measuredHeight) (Finite rowGap))
               (js_add (Finite rowHeight) (Finite rowGap)) = Finite q"
    by blast
  have "gridRowEnd (itemStyle (computeSpan ev it g st) it)
      = Some (rowSpan measuredHeight rowHeight rowGap)"
    by (simp add: computeSpan_writes e1 e2 e3)
  then have "gridRowEnd (itemStyle (computeSpan ev it g st) it)
      = Some (Finite (of_int (max 1 \<lceil>q\<rceil>)))"
    by (simp only: rowSpan_finite[OF q])
  then show ?thesis using q by (intro exI[of _ q] exI[of _ "max 1 \<lceil>q\<rceil>"] conjI) simp_all
qed

text \<open>The amended C2 at the two grids of the counterexample: the quotients in doubles are
  \<open>9\<close> and \<open>6755399441055745 / 2^50\<close>, the spans written 9 and 7.\<close>

theorem computeSpan_formula_witness:
  "gridRowEnd (itemStyle (computeSpan env_gap0 (0, 0) 0 initial_hover) (0, 0)) = Some (Finite 9)
   \<and> gridRowEnd (itemStyle (computeSpan env_round (0, 0) 0 initial_hover) (0, 0)) = Some (Finite 7)"
proof -
  have c: "8 = (case autoRows env_gap0 0 of None \<Rightarrow> 8 | Some v \<Rightarrow> if v = 0 then 8 else v)"
    and d: "16 = (case rowGapCss env_gap0 0 of None \<Rightarrow> 16 | Some v \<Rightarrow> if v = 0 then 16 else v)"
    and e: "200 = (case imgHeight env_gap0 (0, 0) of Some h \<Rightarrow> h
                   | None \<Rightarrow> itemHeight env_gap0 (0, 0))"
    by (simp_all add: env_gap0_def env0_def)
  have l: "(0::real) \<le> 200" "(200::real) \<le> 2 ^ 300" "2 powi (- 300) \<le> (8::real)"
    "(8::real) \<le> 2 ^ 300" "2 powi (- 300) \<le> (16::real)" "(16::real) \<le> 2 ^ 300"
    by simp_all
  from computeSpan_formula[OF c d e l, of initial_hover] obtain q n where
    qn: "js_div (js_add (Finite 200) (Finite 16)) (js_add (Finite 8) (Finite 16)) = Finite q"
        "gridRowEnd (itemStyle (computeSpan env_gap0 (0, 0) 0 initial_hover) (0, 0))
           = Some (Finite (of_int n))"
        "n = max 1 \<lceil>q\<rceil>"
    by blast
  have "q = 9" using qn(1) by simp
  then have "n = 9" using qn(3) by simp
  then have first: "gridRowEnd (itemStyle (computeSpan env_gap0 (0, 0) 0 initial_hover) (0, 0))
      = Some (Finite 9)" using qn(2) by simp
  define gap :: real where "gap = 8106479329266893 / 2 ^ 49"
  have c': "8 = (case autoRows env_round 0 of None \<Rightarrow> 8 | Some v \<Rightarrow> if v = 0 then 8 else v)"
    and d': "gap = (case rowGapCss env_round 0 of None \<Rightarrow> 16
                    | Some v \<Rightarrow> if v = 0 then 16 else v)"
    and e': "120 = (case imgHeight env_round (0, 0) of Some h \<Rightarrow> h
                    | None \<Rightarrow> itemHeight env_round (0, 0))"
    by (simp_all add: env_round_def env0_def gap_def)
  have l': "(0::real) \<le> 120" "(120::real) \<le> 2 ^ 300" "2 powi (- 300) \<le> (8::real)"
    "(8::real) \<le> 2 ^ 300" "2 powi (- 300) \<le> gap" "gap \<le> 2 ^ 300"
    by (simp_all add: gap_def)
  from computeSpan_formula[OF c' d' e' l', of initial_hover] obtain q' n' where
    qn': "js_div (js_add (Finite 120) (Finite gap)) (js_add (Finite 8) (Finite gap)) = Finite q'"
         "gridRowEnd (itemStyle (computeSpan env_round (0, 0) 0 initial_hover) (0, 0))
            = Some (Finite (of_int n'))"
         "n' = max 1 \<lceil>q'\<rceil>"
    by blast
  have "q' = 6755399441055745 / 2 ^ 50"
    using qn'(1) span_quotient_rounded unfolding gap_def by (simp only: jsnum.inject)
  then have "n' = 7" using qn'(3) by (simp add: ceiling_eq_iff)
  then have "gridRowEnd (itemStyle (computeSpan env_round (0, 0) 0 initial_hover) (0, 0))
      = Some (Finite 7)" using qn'(2) by simp
  with first show ?thesis by simp
qed

lemma masonry_four:
  "masonryGrids posts_four = [0]"
  "masonryItems posts_four 0 = [(0, 0), (0, 1), (0, 2), (0, 3)]"
  by (simp_all add: masonryGrids_def masonryItems_def posts_four_def rendered_images_def
      post_at_def post_with_def upt_rec)

text \<open>
  C4, as the claim states it, fails: the second item, 400 px high, gets
  \<open>ceil(416 / 24) = 18\<close> rows, not 17.
\<close>

theorem spans_four_counterexample:
  "spans_of (resizeAll posts_four env_four initial_hover) [(0, 0), (0, 1), (0, 2), (0, 3)]
     \<noteq> [Some (Finite 9), Some (Finite 17), Some (Finite 7), Some (Finite 26)]"
  by (simp add: spans_of_def resizeAll_def masonry_four computeSpan_def getRowMetrics_def
      js_or_def contentHeight_def env_four_def env0_def four_heights_def)

text \<open>
  C4, amended: for a grid whose four items have measured heights 200, 400, 150 and 600
  under \<open>rowHeight = 8\<close> and \<open>rowGap = 16\<close>, the row-span computation assigns the spans
  9, 18, 7 and 26.
\<close>

theorem spans_four:
  "spans_of (resizeAll posts_four env_four initial_hover) [(0, 0), (0, 1), (0, 2), (0, 3)]
     = [Some (Finite 9), Some (Finite 18), Some (Finite 7), Some (Finite 26)]"
  by (simp add: spans_of_def resizeAll_def masonry_four computeSpan_def getRowMetrics_def
      js_or_def contentHeight_def env_four_def env0_def four_heights_def)

section \<open>Lightbox navigation: results\<close>

lemma js_rem_nonneg: "0 \<le> a \<Longrightarrow> 0 < b \<Longrightarrow> js_rem a b = Some (a mod b)"
  by (cases "a = 0") (simp_all add: js_rem_def)

lemma navigate_next:
  assumes "post_at posts (postIndex (lightbox pg)) = Some post" "images post = Some imgs"
    "currentImageIndex (lightbox pg) = Some i" "0 \<le> i" "0 < int (length imgs)"
  shows "navigateLightbox posts Next pg = set_index ((i + 1) mod int (length imgs)) pg"
proof -
  have "js_rem (i + 1) (int (length imgs)) = Some ((i + 1) mod int (length imgs))"
    using assms by (intro js_rem_nonneg) linarith+
  then show ?thesis
    using assms(1-3) by (simp add: navigateLightbox_def set_index_def Let_def)
qed

lemma navigate_prev:
  assumes "post_at posts (postIndex (lightbox pg)) = Some post" "images post = Some imgs"
    "currentImageIndex (lightbox pg) = Some i" "0 \<le> i" "0 < int (length imgs)"
  shows "navigateLightbox posts Prev pg = set_index ((i - 1 + int (length imgs)) mod int (length imgs)) pg"
proof -
  have "js_rem (i - 1 + int (length imgs)) (int (length imgs))
      = Some ((i - 1 + int (length imgs)) mod int (length imgs))"
    using assms by (intro js_rem_nonneg) linarith+
  then show ?thesis
    using assms(1-3) by (simp add: navigateLightbox_def set_index_def Let_def del: mod_add_self2)
qed

lemma set_index_simps [simp]:
  "postIndex (lightbox (set_index j pg)) = postIndex (lightbox pg)"
  "currentImageIndex (lightbox (set_index j pg)) = Some j"
  "set_index j (set_index k pg) = set_index j pg"
  by (simp_all add: set_index_def)

lemma set_index_same: "currentImageIndex (lightbox pg) = Some i \<Longrightarrow> set_index i pg = pg"
  by (simp add: set_index_def)

lemma navigate_next_iter:
  assumes "post_at posts (postIndex (lightbox pg)) = Some post" "images post = Some imgs"
    "currentImageIndex (lightbox pg) = Some i" "0 \<le> i" "0 < int (length imgs)"
  shows "0 < k \<Longrightarrow> ((navigateLightbox posts Next) ^^ k) pg = set_index ((i + int k) mod int (length imgs)) pg"
proof (induction k)
  case 0
  then show ?case by simp
next
  case (Suc k)
  show ?case
  proof (cases "k = 0")
    case True
    then show ?thesis using navigate_next[OF assms] by simp
  next
    case False
    then have ih: "((navigateLightbox posts Next) ^^ k) pg = set_index ((i + int k) mod int (length imgs)) pg"
      using Suc.IH by simp
    have "navigateLightbox posts Next (set_index ((i + int k) mod int (length imgs)) pg)
        = set_index (((i + int k) mod int (length imgs) + 1) mod int (length imgs))
            (set_index ((i + int k) mod int (length imgs)) pg)"
      using assms by (intro navigate_next[where post = post and imgs = imgs]) simp_all
    then show ?thesis
      using ih by (simp add: mod_simps ac_simps)
  qed
qed

text \<open>
  C3: in a lightbox session on a post with \<open>n \<ge> 1\<close> images and the image index \<open>i\<close> among
  them, \<open>next\<close> yields \<open>(i + 1) mod n\<close> and \<open>prev\<close> yields \<open>(i - 1 + n) mod n\<close>; \<open>next\<close>
  applied \<open>n\<close> times returns to the same state; \<open>prev\<close> undoes \<open>next\<close> and \<open>next\<close> undoes
  \<open>prev\<close>; the new index is always a number (never \<open>NaN\<close>, no exception); with three
  images \<open>next\<close> from 2 gives 0 and \<open>prev\<close> from 0 gives 2.
\<close>

theorem navigateLightbox_wraps:
  assumes p: "post_at posts (postIndex (lightbox pg)) = Some post"
      and im: "images post = Some imgs"
      and n: "n = int (length imgs)" "1 \<le> n"
      and i: "currentImageIndex (lightbox pg) = Some i" "0 \<le> i" "i < n"
  shows "currentImageIndex (lightbox (navigateLightbox posts Next pg)) = Some ((i + 1) mod n)
       \<and> currentImageIndex (lightbox (navigateLightbox posts Prev pg)) = Some ((i - 1 + n) mod n)
       \<and> ((navigateLightbox posts Next) ^^ nat n) pg = pg
       \<and> navigateLightbox posts Prev (navigateLightbox posts Next pg) = pg
       \<and> navigateLightbox posts Next (navigateLightbox posts Prev pg) = pg
       \<and> (n = 3 \<and> i = 2 \<longrightarrow> currentImageIndex (lightbox (navigateLightbox posts Next pg)) = Some 0)
       \<and> (n = 3 \<and> i = 0 \<longrightarrow> currentImageIndex (lightbox (navigateLightbox posts Prev pg)) = Some 2)"
proof -
  have pos: "0 < int (length imgs)" using n by linarith
  note nx = navigate_next[OF p im i(1) i(2) pos]
  note pv = navigate_prev[OF p im i(1) i(2) pos]
  have c1: "currentImageIndex (lightbox (navigateLightbox posts Next pg)) = Some ((i + 1) mod n)"
    using nx n by simp
  have c2: "currentImageIndex (lightbox (navigateLightbox posts Prev pg)) = Some ((i - 1 + n) mod n)"
    using pv n by simp
  have "((navigateLightbox posts Next) ^^ nat n) pg = set_index ((i + int (nat n)) mod int (length imgs)) pg"
    using n by (intro navigate_next_iter[OF p im i(1) i(2) pos]) linarith
  also have "(i + int (nat n)) mod int (length imgs) = i"
    using n i by simp
  finally have c3: "((navigateLightbox posts Next) ^^ nat n) pg = pg"
    using i(1) by (simp add: set_index_same)
  have "navigateLightbox posts Prev (set_index ((i + 1) mod n) pg)
      = set_index (((i + 1) mod n - 1 + n) mod n) (set_index ((i + 1) mod n) pg)"
    unfolding n(1) using p im pos
    by (intro navigate_prev[where post = post and imgs = imgs]) simp_all
  moreover have "((i + 1) mod n - 1 + n) mod n = i"
  proof (cases "i + 1 = n")
    case True
    then have "(i + 1) mod n = 0" by simp
    then have "(i + 1) mod n - 1 + n = i" using True by linarith
    then show ?thesis using i by simp
  next
    case False
    then have "(i + 1) mod n = i + 1" using i by simp
    then show ?thesis using i by simp
  qed
  ultimately have c4: "navigateLightbox posts Prev (navigateLightbox posts Next pg) = pg"
    using nx n i(1) by (simp add: set_index_same)
  have "navigateLightbox posts Next (set_index ((i - 1 + n) mod n) pg)
      = set_index (((i - 1 + n) mod n + 1) mod n) (set_index ((i - 1 + n) mod n) pg)"
    unfolding n(1) using p im pos
    by (intro navigate_next[where post = post and imgs = imgs]) simp_all
  moreover have "((i - 1 + n) mod n + 1) mod n = i"
  proof (cases "i = 0")
    case True
    have "(n - 1) mod n = n - 1" using n by (intro mod_pos_pos_trivial) linarith+
    then have "(i - 1 + n) mod n + 1 = n" using True by (simp add: algebra_simps)
    then show ?thesis using True by simp
  next
    case False
    then have "(i - 1 + n) mod n = i - 1" using i by simp
    then show ?thesis using i by simp
  qed
  ultimately have c5: "navigateLightbox posts Next (navigateLightbox posts Prev pg) = pg"
    using pv n i(1) by (simp add: set_index_same)
  show ?thesis using c1 c2 c3 c4 c5 by simp
qed


text \<open>C3 at the lightbox opened on image 2 of a post with three images.\<close>

theorem navigateLightbox_wraps_witness:
  "currentImageIndex (lightbox (navigateLightbox posts_three Next page_three)) = Some 0
   \<and> navigateLightbox posts_three Prev (navigateLightbox posts_three Next page_three) = page_three
   \<and> currentImageIndex (lightbox page_three) = Some 2
   \<and> ((navigateLightbox posts_three Next) ^^ 3) page_three = page_three"
proof -
  have p: "post_at posts_three (postIndex (lightbox page_three))
             = Some (post_with (Some [no_image, no_image, no_image]))"
    by (simp add: post_at_def posts_three_def page_three_def openLightbox_def)
  have im: "images (post_with (Some [no_image, no_image, no_image]))
             = Some [no_image, no_image, no_image]"
    by (simp add: post_with_def)
  have n: "(3::int) = int (length [no_image, no_image, no_image])" "(1::int) \<le> 3"
    by simp_all
  have i: "currentImageIndex (lightbox page_three) = Some 2" "(0::int) \<le> 2" "(2::int) < 3"
    by (simp_all add: page_three_def openLightbox_def)
  from navigateLightbox_wraps[OF p im n i] i(1) show ?thesis by simp
qed

section \<open>Opening the lightbox: results\<close>

text \<open>\<open>openLightbox\<close> itself checks nothing; the check is where it is called from.\<close>

lemma openLightbox_unguarded: "isOpen (lightbox (openLightbox index imgIndex pg))"
  by (simp add: openLightbox_def)

lemma rendered_images_no_images:
  assumes "post_at posts index = Some post" "images post = None \<or> images post = Some []"
  shows "rendered_images posts index = []"
  using assms by (auto simp: rendered_images_def)

lemma rendered_images_missing: "post_at posts index = None \<Longrightarrow> rendered_images posts index = []"
  by (simp add: rendered_images_def)

lemma clickImage_inv: "lb_inv posts pg \<Longrightarrow> lb_inv posts (clickImage posts index imgIndex pg)"
  by (auto simp: lb_inv_def clickImage_def shows_image_def openLightbox_def rendered_images_def
      split: option.splits if_splits)

lemma closeLightbox_inv: "lb_inv posts (closeLightbox pg)"
  by (simp add: lb_inv_def closeLightbox_def)

lemma navigate_isOpen [simp]:
  "isOpen (lightbox (navigateLightbox posts dir pg)) = isOpen (lightbox pg)"
  by (simp add: navigateLightbox_def Let_def split: option.splits)

lemma navigate_postIndex [simp]:
  "postIndex (lightbox (navigateLightbox posts dir pg)) = postIndex (lightbox pg)"
  by (simp add: navigateLightbox_def Let_def split: option.splits)

lemma navigateLightbox_shows:
  assumes "shows_image posts pg"
  shows "shows_image posts (navigateLightbox posts dir pg)"
proof -
  from assms obtain post imgs i where
    p: "post_at posts (postIndex (lightbox pg)) = Some post" and
    im: "images post = Some imgs" and
    i: "currentImageIndex (lightbox pg) = Some i" "0 \<le> i" "i < int (length imgs)"
    by (auto simp: shows_image_def split: option.splits)
  have pos: "0 < int (length imgs)" using i by linarith
  show ?thesis
  proof (cases dir)
    case Next
    then show ?thesis
      using navigate_next[OF p im i(1) i(2) pos] p im pos
      by (simp add: shows_image_def)
  next
    case Prev
    then show ?thesis
      using navigate_prev[OF p im i(1) i(2) pos] p im pos
      by (simp add: shows_image_def)
  qed
qed

lemma navigateLightbox_inv: "lb_inv posts pg \<Longrightarrow> lb_inv posts (navigateLightbox posts dir pg)"
  by (simp add: lb_inv_def navigateLightbox_shows)

lemma handleKeyDown_inv: "lb_inv posts pg \<Longrightarrow> lb_inv posts (handleKeyDown posts k pg)"
  by (cases k) (simp_all add: handleKeyDown_def closeLightbox_inv navigateLightbox_inv)

lemma lb_step_inv: "lb_inv posts pg \<Longrightarrow> lb_inv posts (lb_step posts pg e)"
  by (cases e) (simp_all add: clickImage_inv closeLightbox_inv navigateLightbox_inv handleKeyDown_inv)

lemma lb_run_snoc: "lb_run posts (evs @ [e]) = lb_step posts (lb_run posts evs) e"
  by (simp add: lb_run_def)

lemma lb_run_inv: "lb_inv posts (lb_run posts evs)"
proof (induction evs rule: rev_induct)
  case Nil
  then show ?case by (simp add: lb_run_def lb_inv_def initial_page_def)
next
  case (snoc e evs)
  then show ?case by (simp add: lb_run_snoc lb_step_inv)
qed

text \<open>
  C8: a click that would open the lightbox for a post that does not exist or has no images
  (no \<open>images\<close> field, or an empty array) changes nothing, since no image of such a post is
  rendered with the \<open>openLightbox\<close> handler: the page state, and with it \<open>isOpen = false\<close>,
  stays as it was.  Consequently, after any sequence of image clicks, closings,
  navigations and key presses, an open lightbox is on a post with images, at one of them.
\<close>

theorem openLightbox_call_site:
  "(post_at posts index = None \<or>
      (\<exists>post. post_at posts index = Some post \<and> (images post = None \<or> images post = Some []))
    \<longrightarrow> clickImage posts index imgIndex pg = pg)
   \<and> (isOpen (lightbox (lb_run posts evs)) \<longrightarrow> shows_image posts (lb_run posts evs))"
  using rendered_images_no_images rendered_images_missing lb_run_inv[of posts evs]
  by (auto simp: clickImage_def lb_inv_def)

text \<open>C8 at a feed whose first post has no images and whose second has three.\<close>

theorem openLightbox_call_site_witness:
  "clickImage posts_three 0 0 initial_page = initial_page
   \<and> \<not> isOpen (lightbox (lb_run posts_three [ClickImage 0 0]))
   \<and> isOpen (lightbox (lb_run posts_three [ClickImage 0 0, ClickImage 1 2]))
   \<and> shows_image posts_three (lb_run posts_three [ClickImage 0 0, ClickImage 1 2])"
proof -
  have a: "\<exists>post. post_at posts_three 0 = Some post \<and> (images post = None \<or> images post = Some [])"
    by (simp add: post_at_def posts_three_def post_with_def)
  have b: "clickImage posts_three 0 0 initial_page = initial_page"
    using openLightbox_call_site[of posts_three 0 0 initial_page] a by blast
  have r: "rendered_images posts_three 1 = [0, 1, 2]"
    by (simp add: rendered_images_def post_at_def posts_three_def post_with_def upt_rec)
  have c: "lb_run posts_three [ClickImage 0 0] = initial_page"
    using b by (simp add: lb_run_def)
  have d: "isOpen (lightbox (lb_run posts_three [ClickImage 0 0, ClickImage 1 2]))"
    using b r by (simp add: lb_run_def clickImage_def openLightbox_def)
  from openLightbox_call_site[of posts_three 0 0 initial_page "[ClickImage 0 0, ClickImage 1 2]"] d
  have "shows_image posts_three (lb_run posts_three [ClickImage 0 0, ClickImage 1 2])" by blast
  then show ?thesis using b c d by (simp add: initial_page_def)
qed

section \<open>Slugs: results\<close>

lemma hyphen_not_slug [simp]: "\<not> is_slug_char hyphen"
  by (simp add: is_slug_char_def hyphen_def)

lemma no_double_hyphen_Cons:
  "no_double_hyphen (c # r) \<longleftrightarrow> (r \<noteq> [] \<longrightarrow> c \<noteq> hyphen \<or> hd r \<noteq> hyphen) \<and> no_double_hyphen r"
proof
  assume a: "no_double_hyphen (c # r)"
  have "r \<noteq> [] \<longrightarrow> c \<noteq> hyphen \<or> hd r \<noteq> hyphen"
  proof
    assume "r \<noteq> []"
    then have "Suc 0 < length (c # r)" by (cases r) simp_all
    with a have "(c # r) ! 0 \<noteq> hyphen \<or> (c # r) ! Suc 0 \<noteq> hyphen"
      unfolding no_double_hyphen_def by blast
    then show "c \<noteq> hyphen \<or> hd r \<noteq> hyphen" using \<open>r \<noteq> []\<close> by (simp add: hd_conv_nth)
  qed
  moreover have "no_double_hyphen r"
    unfolding no_double_hyphen_def
  proof (intro allI impI)
    fix i assume "Suc i < length r"
    then have "Suc (Suc i) < length (c # r)" by simp
    with a have "(c # r) ! Suc i \<noteq> hyphen \<or> (c # r) ! Suc (Suc i) \<noteq> hyphen"
      unfolding no_double_hyphen_def by blast
    then show "r ! i \<noteq> hyphen \<or> r ! Suc i \<noteq> hyphen" by simp
  qed
  ultimately show "(r \<noteq> [] \<longrightarrow> c \<noteq> hyphen \<or> hd r \<noteq> hyphen) \<and> no_double_hyphen r" by simp
next
  assume a: "(r \<noteq> [] \<longrightarrow> c \<noteq> hyphen \<or> hd r \<noteq> hyphen) \<and> no_double_hyphen r"
  show "no_double_hyphen (c # r)"
    unfolding no_double_hyphen_def
  proof (intro allI impI)
    fix i assume len: "Suc i < length (c # r)"
    show "(c # r) ! i \<noteq> hyphen \<or> (c # r) ! Suc i \<noteq> hyphen"
    proof (cases i)
      case 0
      then have "r \<noteq> []" using len by auto
      then show ?thesis using a 0 by (simp add: hd_conv_nth)
    next
      case (Suc j)
      then have "Suc j < length r" using len by simp
      then show ?thesis using a Suc unfolding no_double_hyphen_def by simp
    qed
  qed
qed

lemma no_double_hyphen_Nil [simp]: "no_double_hyphen []"
  by (simp add: no_double_hyphen_def)

lemma replace_runs_Nil_iff [simp]: "replace_runs s = [] \<longleftrightarrow> s = []"
  by (cases s) simp_all

lemma hd_replace_runs_slug:
  "s \<noteq> [] \<Longrightarrow> is_slug_char (hd s) \<Longrightarrow> hd (replace_runs s) = hd s"
  by (cases s) simp_all

lemma dropWhile_hd_slug:
  "dropWhile (\<lambda>x. \<not> is_slug_char x) cs \<noteq> [] \<Longrightarrow> is_slug_char (hd (dropWhile (\<lambda>x. \<not> is_slug_char x) cs))"
  using hd_dropWhile[of "\<lambda>x. \<not> is_slug_char x" cs] by simp

lemma replace_runs_alphabet: "slug_alphabet (replace_runs s)"
  by (induction s rule: replace_runs.induct) (simp_all add: slug_alphabet_def)

lemma replace_runs_no_double: "no_double_hyphen (replace_runs s)"
proof (induction s rule: replace_runs.induct)
  case 1
  then show ?case by simp
next
  case (2 c cs)
  show ?case
  proof (cases "is_slug_char c")
    case True
    then have "c \<noteq> hyphen" by auto
    then show ?thesis using 2 True by (simp add: no_double_hyphen_Cons)
  next
    case False
    let ?d = "dropWhile (\<lambda>x. \<not> is_slug_char x) cs"
    have "replace_runs ?d \<noteq> [] \<longrightarrow> hd (replace_runs ?d) \<noteq> hyphen"
    proof
      assume "replace_runs ?d \<noteq> []"
      then have ne: "?d \<noteq> []" by simp
      then have sl: "is_slug_char (hd ?d)" by (rule dropWhile_hd_slug)
      then have "hd (replace_runs ?d) = hd ?d" using ne by (simp add: hd_replace_runs_slug)
      then show "hd (replace_runs ?d) \<noteq> hyphen" using sl by auto
    qed
    then show ?thesis using 2 False by (simp add: no_double_hyphen_Cons)
  qed
qed

lemma replace_runs_keeps_slug_chars:
  "filter is_slug_char (replace_runs s) = filter is_slug_char s"
proof (induction s rule: replace_runs.induct)
  case 1
  then show ?case by simp
next
  case (2 c cs)
  have "filter is_slug_char (dropWhile (\<lambda>x. \<not> is_slug_char x) cs) = filter is_slug_char cs"
    by (induction cs) simp_all
  then show ?case using 2 by simp
qed


lemma no_double_hyphen_butlast: "no_double_hyphen s \<Longrightarrow> no_double_hyphen (butlast s)"
  unfolding no_double_hyphen_def by (auto simp: nth_butlast)

lemma last_butlast_not_hyphen:
  assumes "no_double_hyphen s" "last s = hyphen" "butlast s \<noteq> []"
  shows "last (butlast s) \<noteq> hyphen"
proof -
  obtain n where n: "length s = Suc (Suc n)"
    using assms(3) by (cases s rule: rev_cases; cases "butlast s") auto
  then have ne: "s \<noteq> []" by auto
  have "last s = s ! Suc n" using n ne by (simp add: last_conv_nth)
  moreover have "last (butlast s) = s ! n"
    using n assms(3) by (simp add: last_conv_nth nth_butlast)
  moreover have "s ! n \<noteq> hyphen \<or> s ! Suc n \<noteq> hyphen"
    using assms(1) n unfolding no_double_hyphen_def by simp
  ultimately show ?thesis using assms(2) by simp
qed

lemma set_strip_edges: "set (strip_edges s) \<subseteq> set s"
proof -
  define s1 where "s1 = (case s of [] \<Rightarrow> [] | c # r \<Rightarrow> if c = hyphen then r else s)"
  have r: "strip_edges s = (if s1 \<noteq> [] \<and> last s1 = hyphen then butlast s1 else s1)"
    by (simp add: strip_edges_def s1_def)
  have "set s1 \<subseteq> set s" unfolding s1_def by (cases s) auto
  moreover have "set (butlast s1) \<subseteq> set s1" by (auto dest: in_set_butlastD)
  ultimately show ?thesis using r by auto
qed

lemma strip_edges_alphabet: "slug_alphabet s \<Longrightarrow> slug_alphabet (strip_edges s)"
  using set_strip_edges[of s] unfolding slug_alphabet_def list_all_iff by blast

lemma strip_edges_no_double: "no_double_hyphen s \<Longrightarrow> no_double_hyphen (strip_edges s)"
  unfolding strip_edges_def
  by (auto simp: Let_def no_double_hyphen_Cons no_double_hyphen_butlast split: list.splits)

lemma strip_edges_hd:
  assumes "no_double_hyphen s" "strip_edges s \<noteq> []"
  shows "hd (strip_edges s) \<noteq> hyphen"
proof -
  define s1 where "s1 = (case s of [] \<Rightarrow> [] | c # r \<Rightarrow> if c = hyphen then r else s)"
  have r: "strip_edges s = (if s1 \<noteq> [] \<and> last s1 = hyphen then butlast s1 else s1)"
    by (simp add: strip_edges_def s1_def)
  have h: "s1 \<noteq> [] \<Longrightarrow> hd s1 \<noteq> hyphen"
    using assms(1) unfolding s1_def by (cases s) (auto simp: no_double_hyphen_Cons)
  show ?thesis
  proof (cases "s1 \<noteq> [] \<and> last s1 = hyphen")
    case True
    then have "strip_edges s = butlast s1" using r by simp
    moreover from this have "butlast s1 \<noteq> []" using assms(2) by simp
    moreover from this have "hd (butlast s1) = hd s1" by (cases s1) (auto split: if_splits)
    ultimately show ?thesis using h True by simp
  next
    case False
    then show ?thesis using r h assms(2) by auto
  qed
qed

lemma strip_edges_last:
  assumes "no_double_hyphen s" "strip_edges s \<noteq> []"
  shows "last (strip_edges s) \<noteq> hyphen"
proof -
  define s1 where "s1 = (case s of [] \<Rightarrow> [] | c # r \<Rightarrow> if c = hyphen then r else s)"
  have r: "strip_edges s = (if s1 \<noteq> [] \<and> last s1 = hyphen then butlast s1 else s1)"
    by (simp add: strip_edges_def s1_def)
  have nd: "no_double_hyphen s1"
    using assms(1) unfolding s1_def by (cases s) (auto simp: no_double_hyphen_Cons)
  show ?thesis
  proof (cases "s1 \<noteq> [] \<and> last s1 = hyphen")
    case True
    then have e: "strip_edges s = butlast s1" using r by simp
    then have "butlast s1 \<noteq> []" using assms(2) by simp
    then show ?thesis using last_butlast_not_hyphen[OF nd] True e by simp
  next
    case False
    then show ?thesis using r assms(2) by auto
  qed
qed

lemma filter_butlast_hyphen:
  "s \<noteq> [] \<Longrightarrow> last s = hyphen \<Longrightarrow> filter is_slug_char (butlast s) = filter is_slug_char s"
  by (cases s rule: rev_cases) simp_all

lemma strip_edges_keeps_slug_chars:
  "filter is_slug_char (strip_edges s) = filter is_slug_char s"
proof -
  define s1 where "s1 = (case s of [] \<Rightarrow> [] | c # r \<Rightarrow> if c = hyphen then r else s)"
  have r: "strip_edges s = (if s1 \<noteq> [] \<and> last s1 = hyphen then butlast s1 else s1)"
    by (simp add: strip_edges_def s1_def)
  have "filter is_slug_char s1 = filter is_slug_char s"
    unfolding s1_def by (cases s) auto
  then show ?thesis using r by (simp add: filter_butlast_hyphen)
qed

lemma createSlug_keeps_slug_chars:
  "filter is_slug_char (createSlug lc t) = filter is_slug_char (lc t)"
  by (simp add: createSlug_def strip_edges_keeps_slug_chars replace_runs_keeps_slug_chars)

lemma createSlug_empty_iff:
  "createSlug lc t = [] \<longleftrightarrow> (\<forall>c \<in> set (lc t). \<not> is_slug_char c)"
proof
  assume "createSlug lc t = []"
  then have "filter is_slug_char (lc t) = []"
    using createSlug_keeps_slug_chars[of lc t] by simp
  then show "\<forall>c \<in> set (lc t). \<not> is_slug_char c" by (simp add: filter_empty_conv)
next
  assume a: "\<forall>c \<in> set (lc t). \<not> is_slug_char c"
  let ?s = "createSlug lc t"
  have f: "filter is_slug_char ?s = []"
    using a createSlug_keeps_slug_chars[of lc t] by (simp add: filter_empty_conv)
  show "?s = []"
  proof (rule ccontr)
    assume ne: "?s \<noteq> []"
    have alpha: "slug_alphabet ?s"
      by (simp add: createSlug_def strip_edges_alphabet replace_runs_alphabet)
    have "hd ?s \<in> set ?s" using ne by simp
    then have "is_slug_char (hd ?s) \<or> hd ?s = hyphen"
      using alpha unfolding slug_alphabet_def list_all_iff by blast
    moreover have "\<not> is_slug_char (hd ?s)"
      using f \<open>hd ?s \<in> set ?s\<close> by (simp add: filter_empty_conv)
    moreover have "hd ?s \<noteq> hyphen"
      using ne strip_edges_hd[OF replace_runs_no_double] by (simp add: createSlug_def)
    ultimately show False by simp
  qed
qed

text \<open>
  C10: for every title, and whatever \<open>toLowerCase\<close> returns for it, the slug consists only
  of the code units of \<open>a\<close>-\<open>z\<close> (97-122), \<open>0\<close>-\<open>9\<close> (48-57) and the hyphen (45); it neither
  starts nor ends with a hyphen; no two hyphens are adjacent; it is empty exactly when the
  lower-cased title has no character of \<open>[a-z0-9]\<close>; and equal titles have equal slugs.
\<close>

theorem createSlug_shape:
  "(\<forall>c \<in> set (createSlug lc t). (97 \<le> c \<and> c \<le> 122) \<or> (48 \<le> c \<and> c \<le> 57) \<or> c = 45)
   \<and> (createSlug lc t \<noteq> [] \<longrightarrow>
        hd (createSlug lc t) \<noteq> 45 \<and> last (createSlug lc t) \<noteq> 45)
   \<and> (\<forall>i. Suc i < length (createSlug lc t) \<longrightarrow>
        createSlug lc t ! i \<noteq> 45 \<or> createSlug lc t ! Suc i \<noteq> 45)
   \<and> (createSlug lc t = [] \<longleftrightarrow> (\<forall>c \<in> set (lc t). \<not> is_slug_char c))
   \<and> (t = t' \<longrightarrow> createSlug lc t = createSlug lc t')"
proof -
  let ?s = "createSlug lc t"
  have alpha: "slug_alphabet ?s"
    by (simp add: createSlug_def strip_edges_alphabet replace_runs_alphabet)
  have nd: "no_double_hyphen ?s"
    by (simp add: createSlug_def strip_edges_no_double replace_runs_no_double)
  have c1: "\<forall>c \<in> set ?s. (97 \<le> c \<and> c \<le> 122) \<or> (48 \<le> c \<and> c \<le> 57) \<or> c = 45"
    using alpha unfolding slug_alphabet_def list_all_iff is_slug_char_def hyphen_def by blast
  have c2: "?s \<noteq> [] \<longrightarrow> hd ?s \<noteq> 45 \<and> last ?s \<noteq> 45"
    using strip_edges_hd[OF replace_runs_no_double] strip_edges_last[OF replace_runs_no_double]
    by (simp add: createSlug_def hyphen_def)
  have c3: "\<forall>i. Suc i < length ?s \<longrightarrow> ?s ! i \<noteq> 45 \<or> ?s ! Suc i \<noteq> 45"
    using nd unfolding no_double_hyphen_def hyphen_def by blast
  show ?thesis using c1 c2 c3 createSlug_empty_iff[of lc t] by blast
qed

text \<open>C10 at the titles \<open>"  Hello, World! 2024"\<close> and \<open>"?!"\<close>.\<close>

theorem createSlug_shape_witness:
  "createSlug asciiLower (units ''  Hello, World! 2024'') = units ''hello-world-2024''
   \<and> hd (createSlug asciiLower (units ''  Hello, World! 2024'')) \<noteq> 45
   \<and> last (createSlug asciiLower (units ''  Hello, World! 2024'')) \<noteq> 45
   \<and> createSlug asciiLower (units ''?!'') = []"
proof -
  have e: "createSlug asciiLower (units ''  Hello, World! 2024'') = units ''hello-world-2024''"
    by (simp add: createSlug_def asciiLower_def units_def strip_edges_def is_slug_char_def
        hyphen_def)
  then have ne: "createSlug asciiLower (units ''  Hello, World! 2024'') \<noteq> []"
    by (simp add: units_def)
  have "\<forall>c \<in> set (asciiLower (units ''?!'')). \<not> is_slug_char c"
    by (simp add: asciiLower_def units_def is_slug_char_def)
  with createSlug_shape[of asciiLower "units ''?!''"]
  have "createSlug asciiLower (units ''?!'') = []" by blast
  with createSlug_shape[of asciiLower "units ''  Hello, World! 2024''"] ne e
  show ?thesis by blast
qed

section \<open>Hover expansion: results\<close>

lemmas hover_eval =
  run_def deferred_leave_def next_hover_def overlapping_scrolls_def gallery_env_def
  initial_hover_def onMouseEnter_def onMouseLeave_def animationFrame_def
  requestAnimationFrame_def scrollTo_def set_gridRowEnd_def clearExpansion_def
  applyExpansion_def dispatchCollapse_def closeEnough_def timedOut_def parentElement_def
  movingWithinGrid_def contentHeight_def js_or_def is_expanded_def Let_def

lemma set_gridRowEnd_frame [simp]:
  "is_expanded (set_gridRowEnd it n st) a = is_expanded st a"
  "expandedItemRef (set_gridRowEnd it n st) = expandedItemRef st"
  by (simp_all add: set_gridRowEnd_def is_expanded_def)

lemma requestAnimationFrame_frame [simp]:
  "is_expanded (requestAnimationFrame cb st) a = is_expanded st a"
  "expandedItemRef (requestAnimationFrame cb st) = expandedItemRef st"
  by (simp_all add: requestAnimationFrame_def is_expanded_def)

lemma scrollTo_frame [simp]:
  "is_expanded (scrollTo y st) a = is_expanded st a"
  "expandedItemRef (scrollTo y st) = expandedItemRef st"
  by (simp_all add: scrollTo_def is_expanded_def)

lemma lock_frame [simp]:
  "is_expanded (st\<lparr>isForwardScrollRef := b\<rparr>) a = is_expanded st a"
  "is_expanded (st\<lparr>rafQueue := q\<rparr>) a = is_expanded st a"
  by (simp_all add: is_expanded_def)

lemma computeSpan_frame [simp]:
  "is_expanded (computeSpan ev it g st) a = is_expanded st a"
  "expandedItemRef (computeSpan ev it g st) = expandedItemRef st"
  by (simp_all add: computeSpan_def split: prod.splits)

lemma runCallback_frame:
  "is_expanded (runCallback ev st cb) a = is_expanded st a
   \<and> expandedItemRef (runCallback ev st cb) = expandedItemRef st"
  by (cases cb) (simp_all add: Let_def dispatchCollapse_def)

lemma foldl_runCallback_frame:
  "is_expanded (foldl (runCallback ev) st cbs) a = is_expanded st a
   \<and> expandedItemRef (foldl (runCallback ev) st cbs) = expandedItemRef st"
  by (induction cbs arbitrary: st) (simp_all add: runCallback_frame)

lemma animationFrame_frame:
  "is_expanded (animationFrame ev st) a = is_expanded st a"
  "expandedItemRef (animationFrame ev st) = expandedItemRef st"
  by (simp_all add: animationFrame_def foldl_runCallback_frame)

lemma foldl_computeSpan_frame:
  "is_expanded (foldl (\<lambda>s' it. computeSpan ev it g s') st its) a = is_expanded st a
   \<and> expandedItemRef (foldl (\<lambda>s' it. computeSpan ev it g s') st its) = expandedItemRef st"
  by (induction its arbitrary: st) simp_all

lemma resizeAll_frame_aux:
  "is_expanded (foldl (\<lambda>s g. foldl (\<lambda>s' it. computeSpan ev it g s') s (masonryItems posts g)) st gs) a
     = is_expanded st a
   \<and> expandedItemRef (foldl (\<lambda>s g. foldl (\<lambda>s' it. computeSpan ev it g s') s (masonryItems posts g)) st gs)
     = expandedItemRef st"
  by (induction gs arbitrary: st) (simp_all add: foldl_computeSpan_frame)

lemma resizeAll_frame:
  "is_expanded (resizeAll posts ev st) a = is_expanded st a"
  "expandedItemRef (resizeAll posts ev st) = expandedItemRef st"
  by (simp_all add: resizeAll_def resizeAll_frame_aux)

lemma clearExpansion_frame [simp]:
  "is_expanded (clearExpansion ev it st) a = (a \<noteq> it \<and> is_expanded st a)"
  "expandedItemRef (clearExpansion ev it st) = expandedItemRef st"
  "expandedGridRef (clearExpansion ev it st) = expandedGridRef st"
  by (simp_all add: clearExpansion_def is_expanded_def)

lemma applyExpansion_frame [simp]:
  "is_expanded (applyExpansion it st) a = (a = it \<or> is_expanded st a)"
  by (simp_all add: applyExpansion_def is_expanded_def)

lemma refs_frame [simp]:
  "is_expanded (st\<lparr>originalScrollYRef := oy\<rparr>) a = is_expanded st a"
  "is_expanded (st\<lparr>gridScale := gs\<rparr>) a = is_expanded st a"
  "is_expanded (st\<lparr>expandedItemRef := ir\<rparr>) a = is_expanded st a"
  "is_expanded (st\<lparr>expandedGridRef := gr\<rparr>) a = is_expanded st a"
  by (simp_all add: is_expanded_def)

lemma onMouseEnter_expands:
  assumes inv: "hover_inv st" and unlocked: "\<not> isForwardScrollRef st"
  shows "is_expanded (onMouseEnter ev target st) a \<longleftrightarrow> a = target"
proof (cases "expandedItemRef st")
  case None
  then have "\<not> is_expanded st a" using inv by (auto simp: hover_inv_def simp del: split_paired_All)
  then show ?thesis
    using None unlocked by (simp add: onMouseEnter_def Let_def split: option.splits)
next
  case (Some prev)
  have other: "is_expanded st a \<Longrightarrow> a = prev"
    using inv Some by (auto simp: hover_inv_def simp del: split_paired_All)
  show ?thesis
  proof (cases "prev = target")
    case True
    then show ?thesis
      using Some unlocked other by (auto simp: onMouseEnter_def Let_def split: option.splits)
  next
    case False
    then show ?thesis
      using Some unlocked other by (auto simp: onMouseEnter_def Let_def split: option.splits)
  qed
qed

lemma onMouseEnter_ref:
  "\<not> isForwardScrollRef st \<Longrightarrow> expandedItemRef (onMouseEnter ev target st) = Some target"
  by (simp add: onMouseEnter_def Let_def requestAnimationFrame_def)

lemma onMouseEnter_inv:
  assumes "hover_inv st"
  shows "hover_inv (onMouseEnter ev target st)"
proof (cases "isForwardScrollRef st")
  case True
  then show ?thesis using assms by (simp add: onMouseEnter_def)
next
  case False
  show ?thesis
    unfolding hover_inv_def
    using onMouseEnter_expands[OF assms False] onMouseEnter_ref[OF False] by simp
qed

lemma onMouseLeave_inv:
  assumes inv: "hover_inv st"
  shows "hover_inv (snd (onMouseLeave ev target rel st))"
proof (cases "isForwardScrollRef st \<and> expandedItemRef st = Some target")
  case True
  then show ?thesis
    using inv by (simp add: onMouseLeave_def hover_inv_def del: split_paired_All)
next
  case False
  have other: "\<And>a. is_expanded st a \<Longrightarrow> expandedItemRef st = Some a"
    using inv by (auto simp: hover_inv_def simp del: split_paired_All)
  show ?thesis
  proof (cases "expandedItemRef st = Some target")
    case True
    then have "\<And>a. a \<noteq> target \<Longrightarrow> \<not> is_expanded st a" using other by auto
    then show ?thesis
      using False True unfolding hover_inv_def
      by (auto simp: onMouseLeave_def Let_def split: option.splits sum.splits
          simp del: split_paired_All)
  next
    case ne: False
    then show ?thesis
      using False other unfolding hover_inv_def
      by (auto simp: onMouseLeave_def Let_def split: option.splits sum.splits
          simp del: split_paired_All)
  qed
qed

lemma step_inv: "hover_inv st \<Longrightarrow> hover_inv (step posts st e)"
proof (cases e)
  case (Pair ev x)
  assume inv: "hover_inv st"
  show ?thesis
  proof (cases x)
    case (MouseEnter it)
    then show ?thesis using Pair inv by (simp add: onMouseEnter_inv)
  next
    case (MouseLeave it rel)
    then show ?thesis using Pair inv by (simp add: onMouseLeave_inv)
  next
    case AnimationFrame
    then show ?thesis using Pair inv by (simp add: hover_inv_def animationFrame_frame)
  next
    case Resize
    then show ?thesis using Pair inv by (simp add: hover_inv_def resizeAll_frame)
  next
    case (ImageSettled it)
    then show ?thesis using Pair inv by (simp add: hover_inv_def imageSettled_def)
  qed
qed

lemma run_snoc: "run posts (evs @ [e]) = step posts (run posts evs) e"
  by (simp add: run_def)

lemma run_inv: "hover_inv (run posts evs)"
proof (induction evs rule: rev_induct)
  case Nil
  then show ?case by (simp add: run_def hover_inv_def initial_hover_def is_expanded_def)
next
  case (snoc e evs)
  then show ?case by (simp add: run_snoc step_inv)
qed

text \<open>
  C1: after every sequence of pointer-enter and pointer-leave events (and animation
  frames, resizes and image loads in between), no two different gallery items, in the
  same grid or not, are expanded.  An enter that is not ignored under the scroll lock
  leaves exactly the entered item expanded: the previously expanded one is collapsed in
  the same handler run.
\<close>

theorem at_most_one_expanded:
  "(a \<noteq> b \<longrightarrow> \<not> (is_expanded (run posts evs) a \<and> is_expanded (run posts evs) b))
   \<and> (\<not> isForwardScrollRef (run posts evs) \<longrightarrow>
        is_expanded (onMouseEnter ev target (run posts evs)) target
        \<and> (\<forall>c. c \<noteq> target \<longrightarrow> \<not> is_expanded (onMouseEnter ev target (run posts evs)) c))"
proof -
  have "a \<noteq> b \<longrightarrow> \<not> (is_expanded (run posts evs) a \<and> is_expanded (run posts evs) b)"
    using run_inv[of posts evs] unfolding hover_inv_def
    by (metis option.inject)
  moreover have "\<not> isForwardScrollRef (run posts evs) \<longrightarrow>
        is_expanded (onMouseEnter ev target (run posts evs)) target
        \<and> (\<forall>c. c \<noteq> target \<longrightarrow> \<not> is_expanded (onMouseEnter ev target (run posts evs)) c)"
    using onMouseEnter_expands[OF run_inv, of posts evs ev target] by simp
  ultimately show ?thesis by simp
qed

text \<open>C1 at the session above: item 2 is expanded at the end, so item 0 is not.\<close>

theorem at_most_one_expanded_witness:
  "(0, 0) \<noteq> ((0, 2) :: item)
   \<and> is_expanded (run [] (deferred_leave @ next_hover)) (0, 2)
   \<and> \<not> is_expanded (run [] (deferred_leave @ next_hover)) (0, 0)"
proof -
  have e: "is_expanded (run [] (deferred_leave @ next_hover)) (0, 2)"
    by (simp add: hover_eval)
  have "(0, 0) \<noteq> ((0, 2) :: item)" by simp
  with at_most_one_expanded[of "(0, 0)" "(0, 2)" "[]" "deferred_leave @ next_hover"] e
  show ?thesis by blast
qed

section \<open>The scroll lock: results\<close>

lemma animationFrame_poll_again:
  assumes "rafQueue st = [CbCheckDone y start]" "\<not> closeEnough ev y" "\<not> timedOut ev start"
  shows "animationFrame ev st = st"
  using assms by (cases st) (simp add: animationFrame_def requestAnimationFrame_def)

lemma animationFrame_release:
  assumes "rafQueue st = [CbCheckDone y start]" "closeEnough ev y \<or> timedOut ev start"
  shows "animationFrame ev st = st\<lparr>rafQueue := [], isForwardScrollRef := False\<rparr>"
  using assms by (cases st) (auto simp: animationFrame_def)

lemma animationFrame_idle: "rafQueue st = [] \<Longrightarrow> animationFrame ev st = st"
  by (cases st) (simp add: animationFrame_def)

lemma clock_lower_bound:
  assumes "start \<le> now (f 0)" "\<forall>n. now (f n) < now (f (Suc n))"
  shows "start + int n \<le> now (f n)"
proof (induction n)
  case 0
  then show ?case using assms(1) by simp
next
  case (Suc n)
  have "now (f n) < now (f (Suc n))" using assms(2) by blast
  then show ?case using Suc by simp
qed

text \<open>
  A poll on its own does what it is written to do.  With \<open>checkDone\<close> for target \<open>y\<close> the
  only pending callback, and clock readings that increase from frame to frame, none before
  \<open>start\<close>, there is a first frame \<open>k \<le> 1601\<close> at which the rounded difference between the
  scroll offset and \<open>y\<close> is below 2 or more than 1600 ms have passed; the lock is held up to
  that frame and released from it on.
\<close>

lemma lone_poll_releases:
  assumes q: "rafQueue st = [CbCheckDone y start]"
      and l: "isForwardScrollRef st"
      and t0: "start \<le> now (f 0)"
      and mono: "\<forall>n. now (f n) < now (f (Suc n))"
  shows "\<exists>k\<le>1601.
           (\<bar>fl (scrollY (f k) - y)\<bar> < 2 \<or> 1600 < now (f k) - start)
         \<and> (\<forall>j<k. \<not> \<bar>fl (scrollY (f j) - y)\<bar> < 2 \<and> \<not> 1600 < now (f j) - start)
         \<and> (\<forall>j\<le>k. isForwardScrollRef (frames f j st)
                    \<and> rafQueue (frames f j st) = [CbCheckDone y start])
         \<and> (\<forall>j>k. \<not> isForwardScrollRef (frames f j st) \<and> rafQueue (frames f j st) = [])"
proof -
  let ?done = "\<lambda>n. closeEnough (f n) y \<or> timedOut (f n) start"
  define k where "k = (LEAST n. ?done n)"
  have "start + int 1601 \<le> now (f 1601)" by (rule clock_lower_bound[OF t0 mono])
  then have late: "?done 1601" by (simp add: timedOut_def)
  then have dk: "?done k" unfolding k_def by (rule LeastI)
  have kle: "k \<le> 1601" unfolding k_def using late by (rule Least_le)
  have before: "\<not> ?done j" if "j < k" for j
    using that unfolding k_def by (rule not_less_Least)
  have polling: "frames f j st = st" if "j \<le> k" for j
    using that
  proof (induction j)
    case 0
    then show ?case by simp
  next
    case (Suc j)
    then have "j < k" by simp
    then have "\<not> closeEnough (f j) y" "\<not> timedOut (f j) start" using before by blast+
    then show ?case using Suc q by (simp add: animationFrame_poll_again)
  qed
  let ?r = "st\<lparr>rafQueue := [], isForwardScrollRef := False\<rparr>"
  have released: "frames f (Suc k + m) st = ?r" for m
  proof (induction m)
    case 0
    then show ?case using polling[of k] q dk by (simp add: animationFrame_release)
  next
    case (Suc m)
    then show ?case by (simp add: animationFrame_idle)
  qed
  have after: "frames f j st = ?r" if "k < j" for j
  proof -
    from that obtain m where "j = Suc k + m" using less_iff_Suc_add by auto
    then show ?thesis using released by simp
  qed
  show ?thesis
  proof (intro exI[of _ k] conjI allI impI)
    show "k \<le> 1601" by (rule kle)
    show "\<bar>fl (scrollY (f k) - y)\<bar> < 2 \<or> 1600 < now (f k) - start"
      using dk by (simp add: closeEnough_def timedOut_def)
  next
    fix j assume "j < k"
    then have "\<not> ?done j" by (rule before)
    then show "\<not> \<bar>fl (scrollY (f j) - y)\<bar> < 2" "\<not> 1600 < now (f j) - start"
      by (simp_all add: closeEnough_def timedOut_def)
  next
    fix j assume "j \<le> k"
    then show "isForwardScrollRef (frames f j st)" "rafQueue (frames f j st) = [CbCheckDone y start]"
      using polling q l by simp_all
  next
    fix j assume "k < j"
    then show "\<not> isForwardScrollRef (frames f j st)" "rafQueue (frames f j st) = []"
      using after by simp_all
  qed
qed

text \<open>The second frame after an enter starts its forced scroll and its poll whether or
  not the lock is already held: only \<open>onMouseEnter\<close> tests the lock (line 683).\<close>

lemma scroll_callback_ignores_lock:
  assumes "rectTop ev target < 80 \<or> rectBottom ev target > fl (innerHeight ev - 80)"
  shows "\<exists>y. runCallback ev st (CbScrollIntoView target)
           = st\<lparr>isForwardScrollRef := True,
                scrollToCalls := y # scrollToCalls st,
                rafQueue := rafQueue st @ [CbCheckDone y (now ev)]\<rparr>"
  using assms by (auto simp: Let_def requestAnimationFrame_def scrollTo_def)

text \<open>
  C6 (once a forced scroll toward \<open>y\<close> has engaged the lock, polling releases it exactly
  when the offset is within 2 px of \<open>y\<close> or 1.6 s have passed).  In the session of two
  overlapping forced scrolls the lock is engaged for the scroll to 530 and again for the
  scroll to 754, with both polls pending.  The page scrolls towards 754, and when it passes
  529 the poll left over for 530 releases the lock: 225 px short of 754 and 192 ms after
  that scroll started, with the poll for 754 still pending.  A hover on another item is
  then taken again, while the scroll is under way.
\<close>

theorem stale_poll_releases_lock:
  "isForwardScrollRef (run [] (take 6 overlapping_scrolls))
   \<and> rafQueue (run [] (take 6 overlapping_scrolls)) = [CbCheckDone 530 1032, CbCheckDone 754 1048]
   \<and> scrollToCalls (run [] (take 6 overlapping_scrolls)) = [754, 530]
   \<and> \<not> isForwardScrollRef (run [] overlapping_scrolls)
   \<and> rafQueue (run [] overlapping_scrolls) = [CbCheckDone 754 1048]
   \<and> scrollY (fst (last overlapping_scrolls)) = 529
   \<and> now (fst (last overlapping_scrolls)) = 1240
   \<and> \<not> closeEnough (fst (last overlapping_scrolls)) 754
   \<and> \<not> timedOut (fst (last overlapping_scrolls)) 1048
   \<and> expandedItemRef (onMouseEnter (fst (last overlapping_scrolls)) (0, 2)
         (run [] overlapping_scrolls)) = Some (0, 2)"
  by (simp add: hover_eval)

section \<open>Collapsing: results\<close>

lemma frames_idle: "rafQueue st = [] \<Longrightarrow> frames f n st = st"
  by (induction n) (simp_all add: animationFrame_idle)

text \<open>The enter handler clears the previous item's classes and column span but neither
  writes its row span nor requests a callback that would.\<close>

lemma onMouseEnter_keeps_previous_span:
  assumes "prev \<noteq> target"
  shows "gridRowEnd (itemStyle (onMouseEnter ev target st) prev) = gridRowEnd (itemStyle st prev)"
  using assms
  by (simp add: onMouseEnter_def Let_def requestAnimationFrame_def applyExpansion_def
      clearExpansion_def split: option.splits)

lemma onMouseEnter_locked: "isForwardScrollRef st \<Longrightarrow> onMouseEnter ev target st = st"
  by (simp add: onMouseEnter_def)

lemma onMouseEnter_requests:
  "\<not> isForwardScrollRef st \<Longrightarrow>
     rafQueue (onMouseEnter ev target st) = rafQueue st @ [CbExpandSpan target]"
  by (simp add: onMouseEnter_def Let_def requestAnimationFrame_def applyExpansion_def
      clearExpansion_def split: option.splits)

text \<open>The leave handler, when it collapses, does request the recomputation, and the next
  frame writes the span of the item's height at that time.\<close>

lemma onMouseLeave_recomputes_span:
  assumes "\<not> (isForwardScrollRef st \<and> expandedItemRef st = Some target)" "rafQueue st = []"
  shows "gridRowEnd (itemStyle (animationFrame ev' (snd (onMouseLeave ev target rel st))) target)
           = Some (rowSpan (contentHeight ev' target)
                     (js_or (autoRows ev' (parentElement target)) 8)
                     (js_or (rowGapCss ev' (parentElement target)) 16))"
  using assms
  by (auto simp: onMouseLeave_def Let_def requestAnimationFrame_def clearExpansion_def
      scrollTo_def animationFrame_def split: option.splits sum.splits)

text \<open>
  C9 (a leave during the item's own forced scroll is deferred, and once the lock is
  released with the pointer still outside, the item is collapsed).  The first half holds
  in the session above: the leave changes nothing but requests \<open>waitForUnlock\<close>, and the
  item stays expanded under the lock.  The second half fails: in the frame in which the
  lock is released, with the pointer outside the item, \<open>waitForUnlock\<close> only dispatches a
  \<open>collapse\<close> event that nothing handles.  The item keeps its expanded class, column span
  and image class, \<open>expandedItemRef\<close> still points to it, no callback is pending, and no
  number of further frames changes that.
\<close>

theorem deferred_collapse_never_applied:
  "isForwardScrollRef (run [] (take 5 deferred_leave))
   \<and> is_expanded (run [] (take 5 deferred_leave)) (0, 0)
   \<and> rafQueue (run [] (take 5 deferred_leave)) = [CbCheckDone 800 1032, CbWaitForUnlock (0, 0)]
   \<and> \<not> hovered (fst (deferred_leave ! 6)) (0, 0)
   \<and> \<not> isForwardScrollRef (run [] deferred_leave)
   \<and> rafQueue (run [] deferred_leave) = []
   \<and> is_expanded (run [] deferred_leave) (0, 0)
   \<and> expandedImage (itemStyle (run [] deferred_leave) (0, 0))
   \<and> expandedItemRef (run [] deferred_leave) = Some (0, 0)
   \<and> frames f n (run [] deferred_leave) = run [] deferred_leave"
proof -
  have a: "isForwardScrollRef (run [] (take 5 deferred_leave))
   \<and> is_expanded (run [] (take 5 deferred_leave)) (0, 0)
   \<and> rafQueue (run [] (take 5 deferred_leave)) = [CbCheckDone 800 1032, CbWaitForUnlock (0, 0)]
   \<and> \<not> hovered (fst (deferred_leave ! 6)) (0, 0)"
    by (simp add: hover_eval)
  have b: "\<not> isForwardScrollRef (run [] deferred_leave)
   \<and> rafQueue (run [] deferred_leave) = []
   \<and> is_expanded (run [] deferred_leave) (0, 0)
   \<and> expandedImage (itemStyle (run [] deferred_leave) (0, 0))
   \<and> expandedItemRef (run [] deferred_leave) = Some (0, 0)"
    by (simp add: hover_eval)
  then have "frames f n (run [] deferred_leave) = run [] deferred_leave"
    by (simp add: frames_idle)
  then show ?thesis using a b by simp
qed

text \<open>
  C7 (on entering an item while another is expanded, the other is collapsed and its row
  span recomputed to its natural value).  In the session above item 0 is still expanded
  when the pointer enters item 2.  The enter handler clears the class and the column span
  of item 0 and expands item 2, but item 0 keeps the span 26 of its expanded height: no
  callback is pending that would recompute it, while \<open>computeSpan\<close> on its image, now
  200 px high, would write 9.
\<close>

theorem previous_item_span_not_recomputed:
  "expandedItemRef (run [] deferred_leave) = Some (0, 0)
   \<and> \<not> isForwardScrollRef (run [] deferred_leave)
   \<and> \<not> is_expanded (run [] (deferred_leave @ next_hover)) (0, 0)
   \<and> is_expanded (run [] (deferred_leave @ next_hover)) (0, 2)
   \<and> rafQueue (run [] (deferred_leave @ next_hover)) = []
   \<and> gridRowEnd (itemStyle (run [] (deferred_leave @ next_hover)) (0, 0)) = Some (Finite 26)
   \<and> gridRowEnd (itemStyle (computeSpan settled_env (0, 0) 0
        (run [] (deferred_leave @ next_hover))) (0, 0)) = Some (Finite 9)"
  by (simp add: hover_eval computeSpan_def getRowMetrics_def settled_env_def)

end
